theory Spec2Isabelle
  imports Main
begin

section \<open>JavaScript strings\<close>

text \<open>
  A JavaScript string is a sequence of UTF-16 code units. A \<^typ>\<open>char\<close> stands for the
  code unit of the same number, so the model covers the strings whose code units lie in
  U+0000..U+00FF; on these, \<open>toLowerCase\<close> maps code unit by code unit and \<open>trim\<close> strips
  the white space and line terminators of that range.
\<close>

definition lower_char :: "char \<Rightarrow> char" where
  "lower_char c = (let n = (of_char c :: nat) in
     if (65 \<le> n \<and> n \<le> 90) \<or> (192 \<le> n \<and> n \<le> 222 \<and> n \<noteq> 215)
     then char_of (n + 32) else c)"

definition toLowerCase :: "string \<Rightarrow> string" where
  "toLowerCase s = map lower_char s"

definition endsWith :: "string \<Rightarrow> string \<Rightarrow> bool" where
  "endsWith s suffix = (length suffix \<le> length s \<and> drop (length s - length suffix) s = suffix)"

definition startsWith :: "string \<Rightarrow> string \<Rightarrow> bool" where
  "startsWith s t = (take (length t) s = t)"

fun includes_js :: "string \<Rightarrow> string \<Rightarrow> bool" where
  "includes_js [] t = (t = [])"
| "includes_js (c # cs) t = (startsWith (c # cs) t \<or> includes_js cs t)"

definition is_white_space :: "char \<Rightarrow> bool" where
  "is_white_space c = (of_char c \<in> {9, 10, 11, 12, 13, 32, 160 :: nat})"

definition trim :: "string \<Rightarrow> string" where
  "trim s = rev (dropWhile is_white_space (rev (dropWhile is_white_space s)))"

fun join :: "string \<Rightarrow> string list \<Rightarrow> string" where
  "join sep [] = []"
| "join sep [x] = x"
| "join sep (x # y # ys) = x @ sep @ join sep (y # ys)"

subsection \<open>Numbers as text\<close>

text \<open>
  Numbers are the integers (the doubles without fraction, below \<open>10\<^sup>2\<^sup>1\<close> in size, print
  as plain decimals); fractions, NaN and the infinities are not modelled.
\<close>

definition digit_char :: "nat \<Rightarrow> char" where
  "digit_char n = char_of (48 + n)"

function nat_to_string :: "nat \<Rightarrow> string" where
  "nat_to_string n =
     (if n < 10 then [digit_char n] else nat_to_string (n div 10) @ [digit_char (n mod 10)])"
  by pat_completeness auto
termination
  by (relation "measure id") auto

declare nat_to_string.simps [simp del]

definition int_to_string :: "int \<Rightarrow> string" where
  "int_to_string i = (if i < 0 then CHR ''-'' # nat_to_string (nat (- i)) else nat_to_string (nat i))"

definition is_digit :: "char \<Rightarrow> bool" where
  "is_digit c = (48 \<le> (of_char c :: nat) \<and> (of_char c :: nat) \<le> 57)"

definition digit_val :: "char \<Rightarrow> int" where
  "digit_val c = of_char c - 48"

definition digits_value :: "string \<Rightarrow> int" where
  "digits_value s = foldl (\<lambda>a c. 10 * a + digit_val c) 0 s"

section \<open>JavaScript values and objects\<close>

datatype jsval =
    JUndefined
  | JNull
  | JBool bool
  | JNum int
  | JStr string
  | JArr "jsval list"
  | JObj "(string \<times> jsval) list"

text \<open>
  An ordinary object is the list of its own enumerable properties in the order in which
  \<open>Object.keys\<close>, \<open>Object.values\<close> and \<open>JSON.stringify\<close> visit them: the array-index keys
  in ascending numeric order first, then the other keys in order of creation.
\<close>

type_synonym jsobject = "(string \<times> jsval) list"

definition is_array_index :: "string \<Rightarrow> bool" where
  "is_array_index k =
     (k \<noteq> [] \<and> list_all is_digit k \<and> (if hd k = CHR ''0'' then length k = 1 else True)
      \<and> digits_value k < 4294967295)"

fun insert_index :: "string \<Rightarrow> jsval \<Rightarrow> jsobject \<Rightarrow> jsobject" where
  "insert_index k v [] = [(k, v)]"
| "insert_index k v ((k', v') # ps) =
     (if is_array_index k' \<and> digits_value k' < digits_value k
      then (k', v') # insert_index k v ps
      else (k, v) # (k', v') # ps)"

definition has_own :: "jsobject \<Rightarrow> string \<Rightarrow> bool" where
  "has_own obj k = (k \<in> set (map fst obj))"

text \<open>Defining a data property: an existing key keeps its place, a new one is ordered.\<close>

definition obj_define :: "jsobject \<Rightarrow> string \<Rightarrow> jsval \<Rightarrow> jsobject" where
  "obj_define obj k v =
     (if has_own obj k then map (\<lambda>(k', v'). if k' = k then (k', v) else (k', v')) obj
      else if is_array_index k then insert_index k v obj
      else obj @ [(k, v)])"

text \<open>
  The assignment \<open>obj[k] = v\<close> on an object literal. The key \<open>__proto__\<close> is an accessor
  inherited from \<open>Object.prototype\<close>: assigning to it calls the setter, which creates no
  own property (and ignores a value that is neither an object nor null). Every other
  key defines a data property.
\<close>

definition obj_assign :: "jsobject \<Rightarrow> string \<Rightarrow> jsval \<Rightarrow> jsobject" where
  "obj_assign obj k v = (if k = ''__proto__'' then obj else obj_define obj k v)"

definition Object_keys :: "jsobject \<Rightarrow> string list" where
  "Object_keys obj = map fst obj"

definition Object_values :: "jsobject \<Rightarrow> jsval list" where
  "Object_values obj = map snd obj"

text \<open>\<open>v?.toString()\<close>: \<open>None\<close> is the \<open>undefined\<close> of the optional chain.\<close>

fun opt_toString :: "jsval \<Rightarrow> string option" where
  "opt_toString JUndefined = None"
| "opt_toString JNull = None"
| "opt_toString (JBool b) = Some (if b then ''true'' else ''false'')"
| "opt_toString (JNum n) = Some (int_to_string n)"
| "opt_toString (JStr s) = Some s"
| "opt_toString (JArr xs) =
     Some (join '','' (map (\<lambda>x. case opt_toString x of None \<Rightarrow> [] | Some s \<Rightarrow> s) xs))"
| "opt_toString (JObj ps) = Some ''[object Object]''"

text \<open>The values that have a \<open>toString\<close> method.\<close>

definition has_text :: "jsval \<Rightarrow> bool" where
  "has_text v = (v \<noteq> JUndefined \<and> v \<noteq> JNull)"

text \<open>\<open>row[index]\<close> on an array: \<open>undefined\<close> past the end.\<close>

definition array_get :: "jsval list \<Rightarrow> nat \<Rightarrow> jsval" where
  "array_get row i = (if i < length row then row ! i else JUndefined)"

text \<open>\<open>v ?? d\<close>\<close>

definition nullish_or :: "jsval \<Rightarrow> jsval \<Rightarrow> jsval" where
  "nullish_or v d = (if v = JUndefined \<or> v = JNull then d else v)"

section \<open>The sheet model (page.tsx, lines 7-21)\<close>

record SheetRows =
  name :: string
  headers :: "string list"
  rows :: "jsobject list"
  rowCount :: nat
  columnCount :: nat

text \<open>
  The texts shown to the user are Hindi string literals; each is a constructor named by
  its meaning. \<open>WrongFileFormat\<close> and \<open>ChooseOneOfFormats\<close> are the title and detail of
  lines 124-125 (the detail ends with the joined extension list), \<open>NoDataFound\<close> and
  \<open>NoReadableData\<close> those of lines 137-138, \<open>ReadingFailed\<close> the title of line 151,
  \<open>FileReadError\<close> the message of lines 28 and 34, \<open>ProcessingProblem\<close> the fallback of
  line 155, and \<open>Text\<close> the message of an error thrown by the library.
\<close>

datatype message =
    WrongFileFormat
  | ChooseOneOfFormats string
  | NoDataFound
  | NoReadableData
  | ReadingFailed
  | FileReadError
  | ProcessingProblem
  | Text string

record UploadError =
  title :: message
  detail :: message

definition allowedExtensions :: "string list" where
  "allowedExtensions = [''.xlsx'', ''.xls'', ''.csv'', ''.ods'']"

definition maxRowsPreview :: nat where
  "maxRowsPreview = 200"

section \<open>Normalization: buildSheetData (lines 39-77)\<close>

text \<open>
  The workbook of the xlsx library: the sheet names in order and the sheets by name.
  The library's \<open>sheet_to_json\<close> with \<open>header: 1\<close> (rows as arrays of cells) is a
  parameter.
\<close>

record 'ws WorkBook =
  SheetNames :: "string list"
  Sheets :: "string \<Rightarrow> 'ws option"

text \<open>Lines 58-60: \<open>cell?.toString()?.trim() || `Column ${index + 1}`\<close>.\<close>

definition header_of :: "nat \<Rightarrow> jsval \<Rightarrow> string" where
  "header_of index cell =
     (case map_option trim (opt_toString cell) of
        None \<Rightarrow> ''Column '' @ nat_to_string (index + 1)
      | Some s \<Rightarrow> if s = [] then ''Column '' @ nat_to_string (index + 1) else s)"

definition build_headers :: "jsval list \<Rightarrow> string list" where
  "build_headers headerRow = map (\<lambda>(index, cell). header_of index cell) (enumerate 0 headerRow)"

text \<open>Lines 62-68: one record per data row, filled by \<open>headers.forEach\<close>.\<close>

definition build_record :: "string list \<Rightarrow> jsval list \<Rightarrow> jsobject" where
  "build_record hs row =
     foldl (\<lambda>record (index, header). obj_assign record header (nullish_or (array_get row index) (JStr [])))
       [] (enumerate 0 hs)"

definition build_sheet :: "string \<Rightarrow> jsval list list \<Rightarrow> SheetRows" where
  "build_sheet nm rawRows =
     (case rawRows of
        [] \<Rightarrow> \<lparr>name = nm, headers = [], rows = [], rowCount = 0, columnCount = 0\<rparr>
      | headerRow # dataRows \<Rightarrow>
          (let hs = build_headers headerRow;
               rs = map (build_record hs) dataRows
           in \<lparr>name = nm, headers = hs, rows = rs, rowCount = length rs, columnCount = length hs\<rparr>))"

definition buildSheetData :: "('ws option \<Rightarrow> jsval list list) \<Rightarrow> 'ws WorkBook \<Rightarrow> SheetRows list" where
  "buildSheetData sheet_to_json workbook =
     map (\<lambda>nm. build_sheet nm (sheet_to_json (Sheets workbook nm))) (SheetNames workbook)"

section \<open>The page state and the upload handler (lines 102-160)\<close>

record File =
  file_name :: string
  file_size :: nat

datatype thrown = Error message | NotAnError

text \<open>
  What the handler calls outside the page: the browser's \<open>FileReader\<close> (\<open>None\<close> when it
  reports an error or no target) and the library's \<open>XLSX.read\<close> and \<open>sheet_to_json\<close>.
\<close>

record 'ws env =
  file_reader :: "File \<Rightarrow> nat list option"
  xlsx_read :: "nat list \<Rightarrow> thrown + 'ws WorkBook"
  sheet_to_json :: "'ws option \<Rightarrow> jsval list list"

datatype io_event = ReadAsArrayBuffer File | XLSX_read "nat list"

record ui_state =
  selectedSheets :: "SheetRows list"
  activeSheetIndex :: nat
  fileMeta :: "File option"
  error :: "UploadError option"
  searchTerm :: string

definition initial_state :: ui_state where
  "initial_state = \<lparr>selectedSheets = [], activeSheetIndex = 0, fileMeta = None, error = None,
     searchTerm = []\<rparr>"

definition isValidFileType :: "File \<Rightarrow> bool" where
  "isValidFileType file =
     list_ex (\<lambda>extension. endsWith (toLowerCase (file_name file)) extension) allowedExtensions"

definition readFileAsArrayBuffer :: "'ws env \<Rightarrow> File \<Rightarrow> thrown + nat list" where
  "readFileAsArrayBuffer e file =
     (case file_reader e file of None \<Rightarrow> Inl (Error FileReadError) | Some buffer \<Rightarrow> Inr buffer)"

text \<open>The \<open>catch\<close> block, lines 149-159.\<close>

definition catch_block :: "ui_state \<Rightarrow> thrown \<Rightarrow> ui_state" where
  "catch_block st err =
     st\<lparr>error := Some \<lparr>title = ReadingFailed,
                        detail = (case err of Error m \<Rightarrow> m | NotAnError \<Rightarrow> ProcessingProblem)\<rparr>,
        selectedSheets := [], fileMeta := None\<rparr>"

text \<open>
  \<open>handleFile\<close> returns the state after the handler has run to its end, with the calls it
  made to the reader and the parser, in order.
\<close>

definition handleFile :: "'ws env \<Rightarrow> File list \<Rightarrow> ui_state \<Rightarrow> ui_state \<times> io_event list" where
  "handleFile e fileList st =
     (case fileList of
        [] \<Rightarrow> (st, [])
      | file # _ \<Rightarrow>
          if \<not> isValidFileType file then
            (st\<lparr>error := Some \<lparr>title = WrongFileFormat,
                                detail = ChooseOneOfFormats (join '', '' allowedExtensions)\<rparr>\<rparr>, [])
          else
            (case readFileAsArrayBuffer e file of
               Inl err \<Rightarrow> (catch_block st err, [ReadAsArrayBuffer file])
             | Inr buffer \<Rightarrow>
                 (case xlsx_read e buffer of
                    Inl err \<Rightarrow> (catch_block st err, [ReadAsArrayBuffer file, XLSX_read buffer])
                  | Inr workbook \<Rightarrow>
                      (let sheets = buildSheetData (sheet_to_json e) workbook in
                       if sheets = [] then
                         (st\<lparr>error := Some \<lparr>title = NoDataFound, detail = NoReadableData\<rparr>,
                             selectedSheets := [], fileMeta := None\<rparr>,
                          [ReadAsArrayBuffer file, XLSX_read buffer])
                       else
                         (st\<lparr>selectedSheets := sheets, activeSheetIndex := 0,
                             fileMeta := Some file, error := None\<rparr>,
                          [ReadAsArrayBuffer file, XLSX_read buffer])))))"

text \<open>The two setters the page calls directly (lines 303 and 331).\<close>

definition setActiveSheetIndex :: "nat \<Rightarrow> ui_state \<Rightarrow> ui_state" where
  "setActiveSheetIndex index st = st\<lparr>activeSheetIndex := index\<rparr>"


section \<open>The preview (lines 116 and 165-176)\<close>

definition currentSheet :: "ui_state \<Rightarrow> SheetRows option" where
  "currentSheet st =
     (if activeSheetIndex st < length (selectedSheets st)
      then Some (selectedSheets st ! activeSheetIndex st) else None)"

definition row_matches :: "string \<Rightarrow> jsobject \<Rightarrow> bool" where
  "row_matches term row =
     list_ex (\<lambda>v. case opt_toString v of None \<Rightarrow> False
                  | Some s \<Rightarrow> includes_js (toLowerCase s) term) (Object_values row)"

definition filteredRows :: "ui_state \<Rightarrow> jsobject list" where
  "filteredRows st =
     (case currentSheet st of
        None \<Rightarrow> []
      | Some sheet \<Rightarrow>
          if searchTerm st = [] then take maxRowsPreview (rows sheet)
          else take maxRowsPreview (filter (row_matches (toLowerCase (searchTerm st))) (rows sheet)))"

section \<open>JSON.stringify(value, null, 2) and JSON.parse\<close>

definition hex_digit :: "nat \<Rightarrow> char" where
  "hex_digit n = (if n < 10 then char_of (48 + n) else char_of (87 + n))"

text \<open>QuoteJSONString, one code unit at a time.\<close>

definition json_escape_char :: "char \<Rightarrow> string" where
  "json_escape_char c =
     (let n = (of_char c :: nat) in
      if n = 8 then [CHR 0x5C, CHR ''b'']
      else if n = 9 then [CHR 0x5C, CHR ''t'']
      else if n = 10 then [CHR 0x5C, CHR ''n'']
      else if n = 12 then [CHR 0x5C, CHR ''f'']
      else if n = 13 then [CHR 0x5C, CHR ''r'']
      else if n = 34 then [CHR 0x5C, CHR 0x22]
      else if n = 92 then [CHR 0x5C, CHR 0x5C]
      else if n < 32 then [CHR 0x5C, CHR ''u'', CHR ''0'', CHR ''0'', hex_digit (n div 16), hex_digit (n mod 16)]
      else [c])"

definition QuoteJSONString :: "string \<Rightarrow> string" where
  "QuoteJSONString s = CHR 0x22 # concat (map json_escape_char s) @ [CHR 0x22]"

definition gap :: string where
  "gap = ''  ''"

definition line_break :: string where
  "line_break = [CHR 0x0A]"

text \<open>
  SerializeJSONProperty with the current indentation; \<open>None\<close> is \<open>undefined\<close> (the property
  is left out of an object and printed as \<open>null\<close> in an array).
\<close>

fun stringify :: "string \<Rightarrow> jsval \<Rightarrow> string option" where
  "stringify ind JUndefined = None"
| "stringify ind JNull = Some ''null''"
| "stringify ind (JBool b) = Some (if b then ''true'' else ''false'')"
| "stringify ind (JNum n) = Some (int_to_string n)"
| "stringify ind (JStr s) = Some (QuoteJSONString s)"
| "stringify ind (JArr xs) =
     Some (if xs = [] then ''[]''
           else ''['' @ line_break @ (ind @ gap)
                @ join ('','' @ line_break @ (ind @ gap))
                    (map (\<lambda>x. case stringify (ind @ gap) x of None \<Rightarrow> ''null'' | Some t \<Rightarrow> t) xs)
                @ line_break @ ind @ '']'')"
| "stringify ind (JObj ps) =
     Some (let members = concat (map (\<lambda>p. case stringify (ind @ gap) (snd p) of
                                              None \<Rightarrow> []
                                            | Some t \<Rightarrow> [QuoteJSONString (fst p) @ '': '' @ t]) ps)
           in if members = [] then ''{}''
              else ''{'' @ line_break @ (ind @ gap)
                   @ join ('','' @ line_break @ (ind @ gap)) members
                   @ line_break @ ind @ ''}'')"

definition JSON_stringify :: "jsval \<Rightarrow> string option" where
  "JSON_stringify v = stringify [] v"

definition is_json_ws :: "char \<Rightarrow> bool" where
  "is_json_ws c = (of_char c \<in> {9, 10, 13, 32 :: nat})"

definition skip_ws :: "string \<Rightarrow> string" where
  "skip_ws s = dropWhile is_json_ws s"

definition hex_val :: "char \<Rightarrow> nat option" where
  "hex_val c =
     (let n = (of_char c :: nat) in
      if 48 \<le> n \<and> n \<le> 57 then Some (n - 48)
      else if 97 \<le> n \<and> n \<le> 102 then Some (n - 87)
      else if 65 \<le> n \<and> n \<le> 70 then Some (n - 55)
      else None)"

definition hex4 :: "char \<Rightarrow> char \<Rightarrow> char \<Rightarrow> char \<Rightarrow> nat option" where
  "hex4 a b c d =
     (case (hex_val a, hex_val b, hex_val c, hex_val d) of
        (Some w, Some x, Some y, Some z) \<Rightarrow> Some (((w * 16 + x) * 16 + y) * 16 + z)
      | _ \<Rightarrow> None)"

definition unescape :: "char \<Rightarrow> char option" where
  "unescape e =
     (if e = CHR 0x22 then Some (CHR 0x22)
      else if e = CHR 0x5C then Some (CHR 0x5C)
      else if e = CHR ''/'' then Some (CHR ''/'')
      else if e = CHR ''b'' then Some (CHR 0x08)
      else if e = CHR ''f'' then Some (CHR 0x0C)
      else if e = CHR ''n'' then Some (CHR 0x0A)
      else if e = CHR ''r'' then Some (CHR 0x0D)
      else if e = CHR ''t'' then Some (CHR 0x09)
      else None)"

definition cons_char :: "char \<Rightarrow> (string \<times> string) option \<Rightarrow> (string \<times> string) option" where
  "cons_char c r = (case r of None \<Rightarrow> None | Some (s, rest) \<Rightarrow> Some (c # s, rest))"

text \<open>
  The characters of a string literal after its opening quote, up to the closing quote.
  An escape \<open>\uXXXX\<close> above U+00FF has no \<^typ>\<open>char\<close> and gives \<open>None\<close>.
\<close>

fun parse_string :: "string \<Rightarrow> (string \<times> string) option" where
  "parse_string [] = None"
| "parse_string (c # cs) =
     (if c = CHR 0x22 then Some ([], cs)
      else if c = CHR 0x5C then
        (case cs of
           [] \<Rightarrow> None
         | e # cs' \<Rightarrow>
             if e = CHR ''u'' then
               (case cs' of
                  h1 # h2 # h3 # h4 # cs'' \<Rightarrow>
                    (case hex4 h1 h2 h3 h4 of
                       None \<Rightarrow> None
                     | Some n \<Rightarrow> if n < 256 then cons_char (char_of n) (parse_string cs'') else None)
                | _ \<Rightarrow> None)
             else (case unescape e of None \<Rightarrow> None | Some ch \<Rightarrow> cons_char ch (parse_string cs')))
      else if (of_char c :: nat) < 32 then None
      else cons_char c (parse_string cs))"

text \<open>
  A number literal: an optional minus and the digits, without a leading zero. A fraction
  or an exponent is not an integer literal of the model and gives \<open>None\<close>.
\<close>

definition parse_number :: "string \<Rightarrow> (jsval \<times> string) option" where
  "parse_number s =
     (let negative = (s \<noteq> [] \<and> hd s = CHR ''-'');
          s1 = (if negative then tl s else s);
          ds = takeWhile is_digit s1;
          rest = dropWhile is_digit s1
      in if ds = [] then None
         else if hd ds = CHR ''0'' \<and> length ds > 1 then None
         else if rest \<noteq> [] \<and> hd rest \<in> {CHR ''.'', CHR ''e'', CHR ''E''} then None
         else Some (JNum (if negative then - digits_value ds else digits_value ds), rest))"

fun parse_value :: "nat \<Rightarrow> string \<Rightarrow> (jsval \<times> string) option"
  and parse_elements :: "nat \<Rightarrow> string \<Rightarrow> (jsval list \<times> string) option"
  and parse_members :: "nat \<Rightarrow> string \<Rightarrow> ((string \<times> jsval) list \<times> string) option"
where
  "parse_value 0 s = None"
| "parse_value (Suc f) s =
     (case s of
        [] \<Rightarrow> None
      | c # cs \<Rightarrow>
          if c = CHR 0x22 then
            (case parse_string cs of None \<Rightarrow> None | Some (str, rest) \<Rightarrow> Some (JStr str, rest))
          else if c = CHR ''['' then
            (case skip_ws cs of
               [] \<Rightarrow> None
             | d # ds \<Rightarrow>
                 if d = CHR '']'' then Some (JArr [], ds)
                 else (case parse_elements f (d # ds) of
                         None \<Rightarrow> None
                       | Some (vs, rest) \<Rightarrow> Some (JArr vs, rest)))
          else if c = CHR ''{'' then
            (case skip_ws cs of
               [] \<Rightarrow> None
             | d # ds \<Rightarrow>
                 if d = CHR ''}'' then Some (JObj [], ds)
                 else (case parse_members f (d # ds) of
                         None \<Rightarrow> None
                       | Some (ms, rest) \<Rightarrow>
                           Some (JObj (foldl (\<lambda>obj (k, v). obj_define obj k v) [] ms), rest)))
          else if startsWith s ''true'' then Some (JBool True, drop 4 s)
          else if startsWith s ''false'' then Some (JBool False, drop 5 s)
          else if startsWith s ''null'' then Some (JNull, drop 4 s)
          else parse_number s)"
| "parse_elements 0 s = None"
| "parse_elements (Suc f) s =
     (case parse_value f s of
        None \<Rightarrow> None
      | Some (v, rest) \<Rightarrow>
          (case skip_ws rest of
             [] \<Rightarrow> None
           | d # ds \<Rightarrow>
               if d = CHR '','' then
                 (case parse_elements f (skip_ws ds) of
                    None \<Rightarrow> None
                  | Some (vs, rest') \<Rightarrow> Some (v # vs, rest'))
               else if d = CHR '']'' then Some ([v], ds)
               else None))"
| "parse_members 0 s = None"
| "parse_members (Suc f) s =
     (case s of
        [] \<Rightarrow> None
      | c # cs \<Rightarrow>
          if c \<noteq> CHR 0x22 then None
          else (case parse_string cs of
                  None \<Rightarrow> None
                | Some (k, rest) \<Rightarrow>
                    (case skip_ws rest of
                       [] \<Rightarrow> None
                     | d # ds \<Rightarrow>
                         if d \<noteq> CHR '':'' then None
                         else (case parse_value f (skip_ws ds) of
                                 None \<Rightarrow> None
                               | Some (v, rest') \<Rightarrow>
                                   (case skip_ws rest' of
                                      [] \<Rightarrow> None
                                    | d' # ds' \<Rightarrow>
                                        if d' = CHR '','' then
                                          (case parse_members f (skip_ws ds') of
                                             None \<Rightarrow> None
                                           | Some (ms, rest'') \<Rightarrow> Some ((k, v) # ms, rest''))
                                        else if d' = CHR ''}'' then Some ([(k, v)], ds')
                                        else None)))))"

declare parse_value.simps [simp del] parse_elements.simps [simp del] parse_members.simps [simp del]

definition JSON_parse :: "string \<Rightarrow> jsval option" where
  "JSON_parse text =
     (case parse_value (length text) (skip_ws text) of
        None \<Rightarrow> None
      | Some (v, rest) \<Rightarrow> if skip_ws rest = [] then Some v else None)"

section \<open>The exports (lines 79-100)\<close>

text \<open>
  What a download hands to the browser: the file name of the link, the type of the blob
  and its text.
\<close>

record download =
  download_name :: string
  blob_type :: string
  blob_text :: string

text \<open>Lines 79-88. A blob part that is \<open>undefined\<close> is stored as that word.\<close>

definition downloadAsJson :: "SheetRows \<Rightarrow> download" where
  "downloadAsJson sheet =
     (let json = (case JSON_stringify (JArr (map JObj (rows sheet))) of
                    None \<Rightarrow> ''undefined'' | Some t \<Rightarrow> t)
      in \<lparr>download_name = name sheet @ ''.json'', blob_type = ''application/json'',
          blob_text = json\<rparr>)"

text \<open>
  Lines 90-100. The two functions of the xlsx library are parameters; only the records of
  the sheet are passed to them.
\<close>

definition downloadAsCsv ::
  "(jsobject list \<Rightarrow> 'ws) \<Rightarrow> ('ws \<Rightarrow> string) \<Rightarrow> SheetRows \<Rightarrow> download" where
  "downloadAsCsv json_to_sheet sheet_to_csv sheet =
     (let worksheet = json_to_sheet (rows sheet);
          csv = sheet_to_csv worksheet
      in \<lparr>download_name = name sheet @ ''.csv'', blob_type = ''text/csv'', blob_text = csv\<rparr>)"



section \<open>The library's table and CSV text\<close>

text \<open>
  Modelled from the spec: \<open>XLSX.utils.json_to_sheet\<close> and \<open>XLSX.utils.sheet_to_csv\<close> belong
  to the xlsx library, which is not under src/. Following sections 4.4 and 6 of the spec,
  the records become a rectangular table with the header row first, and the table is
  rendered with one line per row, the fields separated by commas, a field being quoted
  (its quotes doubled) when it contains a comma, a quote or a line feed. As the library
  does, a carriage return alone causes no quoting and a field whose text is exactly \<open>ID\<close>
  is quoted. The call on line 91 passes the records alone, so the columns are the records'
  own keys, in the order in which they first appear.
\<close>

definition add_keys :: "string list \<Rightarrow> string list \<Rightarrow> string list" where
  "add_keys hdr ks = foldl (\<lambda>hdr k. if k \<in> set hdr then hdr else hdr @ [k]) hdr ks"

definition csv_columns :: "jsobject list \<Rightarrow> string list" where
  "csv_columns rs = foldl (\<lambda>hdr r. add_keys hdr (Object_keys r)) [] rs"

type_synonym worksheet = "jsval option list list"

definition xlsx_json_to_sheet :: "jsobject list \<Rightarrow> worksheet" where
  "xlsx_json_to_sheet rs =
     (let hdr = csv_columns rs
      in map (\<lambda>k. Some (JStr k)) hdr # map (\<lambda>r. map (\<lambda>k. map_of r k) hdr) rs)"

definition csv_quote :: "string \<Rightarrow> string" where
  "csv_quote t =
     (if list_ex (\<lambda>c. of_char c \<in> {10, 34, 44 :: nat}) t
      then CHR 0x22 # concat (map (\<lambda>c. if c = CHR 0x22 then [CHR 0x22, CHR 0x22] else [c]) t) @ [CHR 0x22]
      else if t = ''ID'' then CHR 0x22 # ''ID'' @ [CHR 0x22]
      else t)"

definition csv_field :: "jsval option \<Rightarrow> string" where
  "csv_field cell =
     (case cell of
        None \<Rightarrow> []
      | Some v \<Rightarrow> (case opt_toString v of None \<Rightarrow> [] | Some t \<Rightarrow> csv_quote t))"

definition xlsx_sheet_to_csv :: "worksheet \<Rightarrow> string" where
  "xlsx_sheet_to_csv ws = join [CHR 0x0A] (map (\<lambda>row. join '','' (map csv_field row)) ws)"

section \<open>Notions used in the proofs\<close>

text \<open>
  Cells that are neither arrays nor objects (the cell type of the source is
  \<open>string | number\<close>), values that JSON prints as a literal, and the text that
  \<open>JSON.stringify\<close> gives for records of such values.
\<close>

fun is_primitive :: "jsval \<Rightarrow> bool" where
  "is_primitive (JArr xs) = False"
| "is_primitive (JObj ps) = False"
| "is_primitive v = True"

definition ends_number :: "string \<Rightarrow> bool" where
  "ends_number rest = (rest = [] \<or> (of_char (hd rest) :: nat) \<in> {10, 44})"

fun is_flat :: "jsval \<Rightarrow> bool" where
  "is_flat JNull = True"
| "is_flat (JBool b) = True"
| "is_flat (JNum n) = True"
| "is_flat (JStr s) = True"
| "is_flat v = False"

fun flat_text :: "jsval \<Rightarrow> string" where
  "flat_text JNull = ''null''"
| "flat_text (JBool b) = (if b then ''true'' else ''false'')"
| "flat_text (JNum n) = int_to_string n"
| "flat_text (JStr s) = QuoteJSONString s"
| "flat_text v = []"

definition member_text :: "string \<times> jsval \<Rightarrow> string" where
  "member_text p = QuoteJSONString (fst p) @ '': '' @ flat_text (snd p)"

text \<open>The order of own keys: no key twice, the array indices first and ascending.\<close>

fun ordered_keys :: "string list \<Rightarrow> bool" where
  "ordered_keys [] = True"
| "ordered_keys (k # ks) =
     (k \<notin> set ks \<and> ordered_keys ks \<and>
      (if is_array_index k
       then list_all (\<lambda>k'. \<not> is_array_index k' \<or> digits_value k < digits_value k') ks
       else list_all (\<lambda>k'. \<not> is_array_index k') ks))"

definition record_text :: "string \<Rightarrow> jsobject \<Rightarrow> string" where
  "record_text ind ps =
     (if ps = [] then ''{}''
      else CHR ''{'' # CHR 0x0A # (ind @ gap)
           @ join (CHR '','' # CHR 0x0A # (ind @ gap)) (map member_text ps)
           @ CHR 0x0A # ind @ ''}'')"

definition flat_record :: "jsobject \<Rightarrow> bool" where
  "flat_record ps = list_all (\<lambda>p. is_flat (snd p)) ps"

definition safe_record :: "jsobject \<Rightarrow> bool" where
  "safe_record ps = (flat_record ps \<and> ordered_keys (Object_keys ps))"

definition records_text :: "jsobject list \<Rightarrow> string" where
  "records_text rs =
     (if rs = [] then ''[]''
      else CHR ''['' # CHR 0x0A # gap
           @ join (CHR '','' # CHR 0x0A # gap) (map (record_text gap) rs)
           @ [CHR 0x0A, CHR '']''])"


section \<open>Properties of the string and number helpers\<close>

lemma endsWith_iff: "endsWith s suf \<longleftrightarrow> (\<exists>pre. s = pre @ suf)"
proof
  assume "endsWith s suf"
  then have "s = take (length s - length suf) s @ suf"
    by (metis append_take_drop_id endsWith_def)
  then show "\<exists>pre. s = pre @ suf" ..
next
  assume "\<exists>pre. s = pre @ suf"
  then show "endsWith s suf" by (auto simp: endsWith_def)
qed

lemma startsWith_iff: "startsWith s t \<longleftrightarrow> (\<exists>post. s = t @ post)"
proof
  assume "startsWith s t"
  then have "s = t @ drop (length t) s"
    by (metis append_take_drop_id startsWith_def)
  then show "\<exists>post. s = t @ post" ..
next
  assume "\<exists>post. s = t @ post"
  then show "startsWith s t" by (auto simp: startsWith_def)
qed

lemma includes_js_iff: "includes_js s t \<longleftrightarrow> (\<exists>pre post. s = pre @ t @ post)"
proof (induction s)
  case Nil
  then show ?case by auto
next
  case (Cons c cs)
  show ?case
  proof
    assume "includes_js (c # cs) t"
    then consider "startsWith (c # cs) t" | "includes_js cs t" by auto
    then show "\<exists>pre post. c # cs = pre @ t @ post"
    proof cases
      case 1
      then obtain post where "c # cs = t @ post" by (auto simp: startsWith_iff)
      then have "c # cs = [] @ t @ post" by simp
      then show ?thesis by blast
    next
      case 2
      then obtain pre post where "cs = pre @ t @ post" using Cons.IH by blast
      then have "c # cs = (c # pre) @ t @ post" by simp
      then show ?thesis by blast
    qed
  next
    assume "\<exists>pre post. c # cs = pre @ t @ post"
    then obtain pre post where eq: "c # cs = pre @ t @ post" by blast
    show "includes_js (c # cs) t"
    proof (cases pre)
      case Nil
      with eq have "startsWith (c # cs) t" by (auto simp: startsWith_iff)
      then show ?thesis by simp
    next
      case (Cons a pre')
      with eq have "cs = pre' @ t @ post" by simp
      then have "includes_js cs t" using Cons.IH by blast
      then show ?thesis by simp
    qed
  qed
qed

lemma of_char_digit_char: "n < 10 \<Longrightarrow> (of_char (digit_char n) :: nat) = 48 + n"
  by (simp add: digit_char_def)

lemma of_char_int: "(of_char c :: int) = int (of_char c)"
  by (simp add: of_char_def)

lemma digit_val_digit_char: "n < 10 \<Longrightarrow> digit_val (digit_char n) = int n"
  by (simp add: digit_val_def of_char_int of_char_digit_char)

lemma is_digit_digit_char: "n < 10 \<Longrightarrow> is_digit (digit_char n)"
  by (simp add: is_digit_def of_char_digit_char)

lemma digits_value_snoc: "digits_value (s @ [c]) = 10 * digits_value s + digit_val c"
  by (simp add: digits_value_def)

lemma digits_value_nat_to_string: "digits_value (nat_to_string n) = int n"
proof (induction n rule: nat_to_string.induct)
  case (1 n)
  show ?case
  proof (cases "n < 10")
    case True
    then show ?thesis
      by (simp add: nat_to_string.simps[of n] digits_value_def digit_val_digit_char)
  next
    case False
    then have "digits_value (nat_to_string (n div 10)) = int (n div 10)" using 1 by simp
    moreover have "int n = 10 * int (n div 10) + int (n mod 10)"
      by (metis mult_div_mod_eq of_nat_add of_nat_mult of_nat_numeral)
    ultimately show ?thesis
      using False
      by (simp add: nat_to_string.simps[of n] digits_value_snoc digit_val_digit_char)
  qed
qed

lemma build_headers_length: "length (build_headers headerRow) = length headerRow"
  by (simp add: build_headers_def)

lemma build_headers_nth:
  "i < length headerRow \<Longrightarrow> build_headers headerRow ! i = header_of i (headerRow ! i)"
  by (simp add: build_headers_def nth_enumerate_eq)

lemma valid_data_xlsx: "isValidFileType \<lparr>file_name = ''Data.XLSX'', file_size = 0\<rparr>"
  by code_simp

section \<open>No sheets against one empty sheet\<close>

text \<open>
  C4: when the file is accepted, read and decoded, a workbook without sheets ends the upload
  with the no-data error and nothing loaded; a sheet without rows becomes the empty sheet,
  and a workbook with one such sheet is loaded without an error.
\<close>

theorem handleFile_no_sheets_vs_empty_sheet:
  assumes "isValidFileType file" and "file_reader e file = Some buffer"
    and "xlsx_read e buffer = Inr wb"
  shows "(SheetNames wb = [] \<longrightarrow>
            fst (handleFile e (file # others) st) =
              st\<lparr>error := Some \<lparr>title = NoDataFound, detail = NoReadableData\<rparr>,
                 selectedSheets := [], fileMeta := None\<rparr>)
       \<and> build_sheet nm [] = \<lparr>name = nm, headers = [], rows = [], rowCount = 0, columnCount = 0\<rparr>
       \<and> (SheetNames wb = [nm] \<and> sheet_to_json e (Sheets wb nm) = [] \<longrightarrow>
            fst (handleFile e (file # others) st) =
              st\<lparr>selectedSheets := [\<lparr>name = nm, headers = [], rows = [], rowCount = 0, columnCount = 0\<rparr>],
                 activeSheetIndex := 0, fileMeta := Some file, error := None\<rparr>)"
  using assms
  by (simp add: handleFile_def readFileAsArrayBuffer_def buildSheetData_def build_sheet_def)

theorem handleFile_no_sheets_vs_empty_sheet_witness:
  "fst (handleFile
      \<lparr>file_reader = (\<lambda>f. Some []),
       xlsx_read = (\<lambda>b. Inr \<lparr>SheetNames = [], Sheets = (\<lambda>n. None :: unit option)\<rparr>),
       sheet_to_json = (\<lambda>s. [])\<rparr>
      [\<lparr>file_name = ''Data.XLSX'', file_size = 0\<rparr>] initial_state)
   = initial_state\<lparr>error := Some \<lparr>title = NoDataFound, detail = NoReadableData\<rparr>,
        selectedSheets := [], fileMeta := None\<rparr>
  \<and> fst (handleFile
      \<lparr>file_reader = (\<lambda>f. Some []),
       xlsx_read = (\<lambda>b. Inr \<lparr>SheetNames = [''S''], Sheets = (\<lambda>n. None :: unit option)\<rparr>),
       sheet_to_json = (\<lambda>s. [])\<rparr>
      [\<lparr>file_name = ''Data.XLSX'', file_size = 0\<rparr>] initial_state)
   = initial_state\<lparr>selectedSheets := [\<lparr>name = ''S'', headers = [], rows = [], rowCount = 0, columnCount = 0\<rparr>],
                 activeSheetIndex := 0, fileMeta := Some \<lparr>file_name = ''Data.XLSX'', file_size = 0\<rparr>, error := None\<rparr>"
  using handleFile_no_sheets_vs_empty_sheet [OF valid_data_xlsx,
      of "\<lparr>file_reader = (\<lambda>f. Some []),
       xlsx_read = (\<lambda>b. Inr \<lparr>SheetNames = [], Sheets = (\<lambda>n. None :: unit option)\<rparr>),
       sheet_to_json = (\<lambda>s. [])\<rparr>" "[]" "\<lparr>SheetNames = [], Sheets = (\<lambda>n. None)\<rparr>" "[]" initial_state "''S''"]
    handleFile_no_sheets_vs_empty_sheet [OF valid_data_xlsx,
      of "\<lparr>file_reader = (\<lambda>f. Some []),
       xlsx_read = (\<lambda>b. Inr \<lparr>SheetNames = [''S''], Sheets = (\<lambda>n. None :: unit option)\<rparr>),
       sheet_to_json = (\<lambda>s. [])\<rparr>" "[]" "\<lparr>SheetNames = [''S''], Sheets = (\<lambda>n. None)\<rparr>" "[]" initial_state "''S''"]
  by simp

section \<open>The upload handler\<close>

lemma isValidFileType_iff:
  "isValidFileType file \<longleftrightarrow>
     (\<exists>extension \<in> set [''.xlsx'', ''.xls'', ''.csv'', ''.ods'']. \<exists>stem. toLowerCase (file_name file) = stem @ extension)"
  by (simp add: isValidFileType_def allowedExtensions_def endsWith_iff)

lemma join_allowedExtensions: "join '', '' allowedExtensions = ''.xlsx, .xls, .csv, .ods''"
  by (simp add: allowedExtensions_def)

lemma report_pdf_invalid: "\<not> isValidFileType \<lparr>file_name = ''report.pdf'', file_size = 7\<rparr>"
  by code_simp

text \<open>
  C5: a file whose lower-cased name ends with none of \<open>.xlsx\<close>, \<open>.xls\<close>, \<open>.csv\<close>, \<open>.ods\<close> is
  rejected with the wrong-format error; the handler has called neither the reader nor the
  parser (its list of calls is empty), and the error is the only field of the state that
  changes.
\<close>

theorem handleFile_invalid_type:
  assumes "\<not> (\<exists>stem. toLowerCase (file_name file) = stem @ ''.xlsx'')"
    and "\<not> (\<exists>stem. toLowerCase (file_name file) = stem @ ''.xls'')"
    and "\<not> (\<exists>stem. toLowerCase (file_name file) = stem @ ''.csv'')"
    and "\<not> (\<exists>stem. toLowerCase (file_name file) = stem @ ''.ods'')"
  shows "handleFile e (file # others) st =
           (st\<lparr>error := Some \<lparr>title = WrongFileFormat,
                               detail = ChooseOneOfFormats ''.xlsx, .xls, .csv, .ods''\<rparr>\<rparr>, [])"
proof -
  have "\<not> isValidFileType file"
    using assms by (simp add: isValidFileType_iff)
  then show ?thesis
    by (simp add: handleFile_def join_allowedExtensions)
qed

theorem handleFile_invalid_type_witness:
  "handleFile
      \<lparr>file_reader = (\<lambda>f. Some []),
       xlsx_read = (\<lambda>b. Inr \<lparr>SheetNames = [''T''], Sheets = (\<lambda>n. None :: unit option)\<rparr>),
       sheet_to_json = (\<lambda>s. [])\<rparr>
      [\<lparr>file_name = ''report.pdf'', file_size = 7\<rparr>]
      \<lparr>selectedSheets = [\<lparr>name = ''S'', headers = [''A''], rows = [[(''A'', JStr ''1'')]],
                            rowCount = 1, columnCount = 1\<rparr>],
       activeSheetIndex = 0, fileMeta = Some \<lparr>file_name = ''old.csv'', file_size = 4\<rparr>,
       error = None, searchTerm = ''x''\<rparr>
   = (\<lparr>selectedSheets = [\<lparr>name = ''S'', headers = [''A''], rows = [[(''A'', JStr ''1'')]],
                            rowCount = 1, columnCount = 1\<rparr>],
       activeSheetIndex = 0, fileMeta = Some \<lparr>file_name = ''old.csv'', file_size = 4\<rparr>,
       error = Some \<lparr>title = WrongFileFormat, detail = ChooseOneOfFormats ''.xlsx, .xls, .csv, .ods''\<rparr>,
       searchTerm = ''x''\<rparr>, [])"
proof -
  have inv: "\<not> (\<exists>extension \<in> set [''.xlsx'', ''.xls'', ''.csv'', ''.ods''].
      \<exists>stem. toLowerCase (file_name \<lparr>file_name = ''report.pdf'', file_size = 7\<rparr>) = stem @ extension)"
    using report_pdf_invalid unfolding isValidFileType_iff .
  show ?thesis
    using handleFile_invalid_type [of "\<lparr>file_name = ''report.pdf'', file_size = 7\<rparr>"
      "\<lparr>file_reader = (\<lambda>f. Some []),
       xlsx_read = (\<lambda>b. Inr \<lparr>SheetNames = [''T''], Sheets = (\<lambda>n. None :: unit option)\<rparr>),
       sheet_to_json = (\<lambda>s. [])\<rparr>" "[]"
       "\<lparr>selectedSheets = [\<lparr>name = ''S'', headers = [''A''], rows = [[(''A'', JStr ''1'')]],
                            rowCount = 1, columnCount = 1\<rparr>],
       activeSheetIndex = 0, fileMeta = Some \<lparr>file_name = ''old.csv'', file_size = 4\<rparr>,
       error = None, searchTerm = ''x''\<rparr>"] inv
    by simp
qed

text \<open>
  C1, as stated: every error outcome clears the loaded workbook. Rejecting \<open>report.pdf\<close>
  while a workbook is loaded stores the error and keeps the workbook.
\<close>

theorem handleFile_invalid_type_keeps_workbook_counterexample:
  "error (fst (handleFile
      \<lparr>file_reader = (\<lambda>f. Some []),
       xlsx_read = (\<lambda>b. Inr \<lparr>SheetNames = [], Sheets = (\<lambda>n. None :: unit option)\<rparr>),
       sheet_to_json = (\<lambda>s. [])\<rparr>
      [\<lparr>file_name = ''report.pdf'', file_size = 7\<rparr>]
      \<lparr>selectedSheets = [\<lparr>name = ''S'', headers = [''A''], rows = [[(''A'', JStr ''1'')]],
                            rowCount = 1, columnCount = 1\<rparr>],
       activeSheetIndex = 0, fileMeta = Some \<lparr>file_name = ''old.csv'', file_size = 4\<rparr>,
       error = None, searchTerm = []\<rparr>))
     = Some \<lparr>title = WrongFileFormat, detail = ChooseOneOfFormats ''.xlsx, .xls, .csv, .ods''\<rparr>
   \<and> selectedSheets (fst (handleFile
      \<lparr>file_reader = (\<lambda>f. Some []),
       xlsx_read = (\<lambda>b. Inr \<lparr>SheetNames = [], Sheets = (\<lambda>n. None :: unit option)\<rparr>),
       sheet_to_json = (\<lambda>s. [])\<rparr>
      [\<lparr>file_name = ''report.pdf'', file_size = 7\<rparr>]
      \<lparr>selectedSheets = [\<lparr>name = ''S'', headers = [''A''], rows = [[(''A'', JStr ''1'')]],
                            rowCount = 1, columnCount = 1\<rparr>],
       activeSheetIndex = 0, fileMeta = Some \<lparr>file_name = ''old.csv'', file_size = 4\<rparr>,
       error = None, searchTerm = []\<rparr>))
     = [\<lparr>name = ''S'', headers = [''A''], rows = [[(''A'', JStr ''1'')]], rowCount = 1, columnCount = 1\<rparr>]"
  using report_pdf_invalid
  by (simp add: handleFile_def join_allowedExtensions)

text \<open>
  C1, amended: a failed read, a failed parse and a workbook without sheets each store an
  error and clear the workbook and the file; a rejected file type stores an error and
  changes nothing else; and after the upload of a file of an accepted type an error is
  stored exactly when no workbook is loaded.
\<close>

theorem handleFile_error_outcomes:
  "(isValidFileType file \<and> file_reader e file = None \<longrightarrow>
      fst (handleFile e (file # others) st) =
        st\<lparr>error := Some \<lparr>title = ReadingFailed, detail = FileReadError\<rparr>,
           selectedSheets := [], fileMeta := None\<rparr>)
 \<and> (isValidFileType file \<and> file_reader e file = Some buffer \<and> xlsx_read e buffer = Inl err \<longrightarrow>
      fst (handleFile e (file # others) st) =
        st\<lparr>error := Some \<lparr>title = ReadingFailed,
                detail = (case err of Error m \<Rightarrow> m | NotAnError \<Rightarrow> ProcessingProblem)\<rparr>,
           selectedSheets := [], fileMeta := None\<rparr>)
 \<and> (isValidFileType file \<and> file_reader e file = Some buffer \<and> xlsx_read e buffer = Inr wb
      \<and> SheetNames wb = [] \<longrightarrow>
      fst (handleFile e (file # others) st) =
        st\<lparr>error := Some \<lparr>title = NoDataFound, detail = NoReadableData\<rparr>,
           selectedSheets := [], fileMeta := None\<rparr>)
 \<and> (\<not> isValidFileType file \<longrightarrow>
      fst (handleFile e (file # others) st) =
        st\<lparr>error := Some \<lparr>title = WrongFileFormat,
                            detail = ChooseOneOfFormats ''.xlsx, .xls, .csv, .ods''\<rparr>\<rparr>)
 \<and> (isValidFileType file \<longrightarrow>
      (error (fst (handleFile e (file # others) st)) = None
         \<longleftrightarrow> selectedSheets (fst (handleFile e (file # others) st)) \<noteq> []))"
  by (simp add: handleFile_def readFileAsArrayBuffer_def catch_block_def buildSheetData_def
      join_allowedExtensions Let_def split: option.splits sum.splits)

theorem handleFile_error_outcomes_witness:
  "fst (handleFile
      \<lparr>file_reader = (\<lambda>f. None),
       xlsx_read = (\<lambda>b. Inr \<lparr>SheetNames = [], Sheets = (\<lambda>n. None :: unit option)\<rparr>),
       sheet_to_json = (\<lambda>s. [])\<rparr>
      [\<lparr>file_name = ''Data.XLSX'', file_size = 0\<rparr>]
      \<lparr>selectedSheets = [\<lparr>name = ''S'', headers = [''A''], rows = [[(''A'', JStr ''1'')]],
                            rowCount = 1, columnCount = 1\<rparr>],
       activeSheetIndex = 0, fileMeta = Some \<lparr>file_name = ''old.csv'', file_size = 4\<rparr>,
       error = None, searchTerm = []\<rparr>)
   = \<lparr>selectedSheets = [], activeSheetIndex = 0, fileMeta = None,
      error = Some \<lparr>title = ReadingFailed, detail = FileReadError\<rparr>, searchTerm = []\<rparr>"
  using handleFile_error_outcomes [of "\<lparr>file_name = ''Data.XLSX'', file_size = 0\<rparr>"
      "\<lparr>file_reader = (\<lambda>f. None),
       xlsx_read = (\<lambda>b. Inr \<lparr>SheetNames = [], Sheets = (\<lambda>n. None :: unit option)\<rparr>),
       sheet_to_json = (\<lambda>s. [])\<rparr>" "[]"
      "\<lparr>selectedSheets = [\<lparr>name = ''S'', headers = [''A''], rows = [[(''A'', JStr ''1'')]],
                            rowCount = 1, columnCount = 1\<rparr>],
       activeSheetIndex = 0, fileMeta = Some \<lparr>file_name = ''old.csv'', file_size = 4\<rparr>,
       error = None, searchTerm = []\<rparr>" "[]" NotAnError "\<lparr>SheetNames = [], Sheets = (\<lambda>n. None)\<rparr>"]
    valid_data_xlsx
  by simp

section \<open>The preview filter\<close>

lemma nullish_or_not_nullish: "nullish_or v (JStr d) \<noteq> JUndefined \<and> nullish_or v (JStr d) \<noteq> JNull"
  by (simp add: nullish_or_def)

lemma has_text_iff: "has_text v \<longleftrightarrow> (\<exists>s. opt_toString v = Some s)"
  by (cases v) (simp_all add: has_text_def)

lemma insert_index_set: "set (insert_index k v ps) = insert (k, v) (set ps)"
  by (induction ps) (auto split: if_splits)

lemma obj_define_values:
  "p \<in> set (obj_define obj k v) \<Longrightarrow> snd p = v \<or> snd p \<in> snd ` set obj"
  by (auto simp: obj_define_def insert_index_set split: if_splits)

lemma obj_assign_values:
  "p \<in> set (obj_assign obj k v) \<Longrightarrow> snd p = v \<or> snd p \<in> snd ` set obj"
  using obj_define_values [of p obj k v] by (auto simp: obj_assign_def split: if_splits)

lemma foldl_assign_has_text:
  "list_all has_text (map snd acc) \<Longrightarrow>
   list_all has_text (map snd
     (foldl (\<lambda>record (index, header). obj_assign record header (nullish_or (array_get row index) (JStr [])))
        acc ihs))"
proof (induction ihs arbitrary: acc)
  case Nil
  then show ?case by simp
next
  case (Cons ih ihs)
  obtain i h where ih: "ih = (i, h)" by (cases ih)
  have "has_text (nullish_or (array_get row i) (JStr []))"
    by (simp add: has_text_def nullish_or_not_nullish)
  with Cons.prems have "list_all has_text (map snd (obj_assign acc h (nullish_or (array_get row i) (JStr []))))"
    using obj_assign_values [of _ acc h "nullish_or (array_get row i) (JStr [])"]
    by (fastforce simp: list_all_iff)
  from Cons.IH [OF this] show ?case by (simp add: ih)
qed

lemma build_record_has_text: "list_all has_text (Object_values (build_record hs row))"
  unfolding build_record_def Object_values_def by (rule foldl_assign_has_text) simp

lemma row_matches_iff:
  "row_matches (toLowerCase term) row \<longleftrightarrow>
     (\<exists>v s before after. v \<in> set (Object_values row) \<and> opt_toString v = Some s
        \<and> toLowerCase s = before @ toLowerCase term @ after)"
proof -
  have "row_matches (toLowerCase term) row \<longleftrightarrow>
     (\<exists>v \<in> set (Object_values row). \<exists>s. opt_toString v = Some s \<and> includes_js (toLowerCase s) (toLowerCase term))"
    by (auto simp: row_matches_def list_ex_iff split: option.splits)
  then show ?thesis
    by (simp add: includes_js_iff) blast
qed

lemma filteredRows_delhi:
  "filteredRows \<lparr>selectedSheets = [\<lparr>name = ''S'', headers = [''City''],
        rows = [[(''City'', JStr ''Delhi'')], [(''City'', JStr ''Pune'')]], rowCount = 2, columnCount = 1\<rparr>],
      activeSheetIndex = 0, fileMeta = None, error = None, searchTerm = ''delhi''\<rparr>
   = [[(''City'', JStr ''Delhi'')]]"
  by code_simp

text \<open>
  C6: without a sheet the preview is empty; with an empty search term it is the first 200
  records; otherwise it is the first 200 of the records, in their order, in which some
  field has a text whose lower-cased form contains the lower-cased term. Every field of a
  record built by normalization has a text.
\<close>

theorem filteredRows_spec:
  "filteredRows st =
     (case currentSheet st of
        None \<Rightarrow> []
      | Some sheet \<Rightarrow>
          if searchTerm st = [] then take 200 (rows sheet)
          else take 200 (filter (\<lambda>row. \<exists>v s before after. v \<in> set (Object_values row)
                            \<and> opt_toString v = Some s
                            \<and> toLowerCase s = before @ toLowerCase (searchTerm st) @ after)
                          (rows sheet)))
   \<and> (\<forall>v. v \<in> set (Object_values (build_record hs cells)) \<longrightarrow> (\<exists>s. opt_toString v = Some s))"
proof -
  have "\<forall>v. v \<in> set (Object_values (build_record hs cells)) \<longrightarrow> (\<exists>s. opt_toString v = Some s)"
    using build_record_has_text [of hs cells] by (simp add: list_all_iff has_text_iff)
  then show ?thesis
    by (simp add: filteredRows_def maxRowsPreview_def row_matches_iff [abs_def] split: option.splits)
qed

theorem filteredRows_spec_witness:
  "(\<exists>v s before after. v \<in> set (Object_values [(''City'', JStr ''Delhi'')])
        \<and> opt_toString v = Some s \<and> toLowerCase s = before @ toLowerCase ''delhi'' @ after)
   \<and> filteredRows \<lparr>selectedSheets = [\<lparr>name = ''S'', headers = [''City''],
        rows = [[(''City'', JStr ''Delhi'')], [(''City'', JStr ''Pune'')]], rowCount = 2, columnCount = 1\<rparr>],
      activeSheetIndex = 0, fileMeta = None, error = None, searchTerm = ''delhi''\<rparr>
     = [[(''City'', JStr ''Delhi'')]]"
proof -
  let ?r1 = "[(''City'', JStr ''Delhi'')]" and ?r2 = "[(''City'', JStr ''Pune'')]"
  let ?P = "\<lambda>row. \<exists>v s before after. v \<in> set (Object_values row)
                            \<and> opt_toString v = Some s
                            \<and> toLowerCase s = before @ toLowerCase ''delhi'' @ after"
  let ?st = "\<lparr>selectedSheets = [\<lparr>name = ''S'', headers = [''City''],
        rows = [?r1, ?r2], rowCount = 2, columnCount = 1\<rparr>],
      activeSheetIndex = 0, fileMeta = None, error = None, searchTerm = ''delhi''\<rparr>"
  have "filteredRows ?st = take 200 (filter ?P [?r1, ?r2])"
    using filteredRows_spec [of ?st "[]" "[]"] by (simp add: currentSheet_def)
  then have "take 200 (filter ?P [?r1, ?r2]) = [?r1]"
    by (simp only: filteredRows_delhi)
  then have "?r1 \<in> set (take 200 (filter ?P [?r1, ?r2]))"
    by (simp only: list.set_intros(1))
  then have "?r1 \<in> set (filter ?P [?r1, ?r2])"
    by (rule in_set_takeD)
  then have "?P ?r1"
    by (simp only: set_filter mem_Collect_eq)
  then show ?thesis
    by (simp only: filteredRows_delhi simp_thms)
qed

lemma row_matches_asha: "row_matches (toLowerCase ''ASHA'') [(''Name'', JStr ''Asha'')]"
  by code_simp

lemma row_matches_ravi: "\<not> row_matches (toLowerCase ''ASHA'') [(''Name'', JStr ''Ravi'')]"
  by code_simp

lemma build_names_sheet:
  "build_sheet ''People'' [[JStr ''Name''], [JStr ''Asha''], [JStr ''Ravi'']] =
     \<lparr>name = ''People'', headers = [''Name''],
      rows = [[(''Name'', JStr ''Asha'')], [(''Name'', JStr ''Ravi'')]], rowCount = 2, columnCount = 1\<rparr>"
  by code_simp

text \<open>
  C10: a successful upload sets the active sheet index to 0 and keeps the search term, as
  does choosing a sheet; the preview of the new workbook is its first sheet filtered by the
  term entered before.
\<close>

theorem upload_keeps_searchTerm:
  assumes "isValidFileType file" and "file_reader e file = Some buffer"
    and "xlsx_read e buffer = Inr wb" and "SheetNames wb = nm # nms"
  shows "activeSheetIndex (fst (handleFile e (file # others) st)) = 0
       \<and> searchTerm (fst (handleFile e (file # others) st)) = searchTerm st
       \<and> searchTerm (setActiveSheetIndex i st) = searchTerm st
       \<and> filteredRows (fst (handleFile e (file # others) st)) =
           (if searchTerm st = []
            then take 200 (rows (build_sheet nm (sheet_to_json e (Sheets wb nm))))
            else take 200 (filter (row_matches (toLowerCase (searchTerm st)))
                             (rows (build_sheet nm (sheet_to_json e (Sheets wb nm))))))"
  using assms
  by (simp add: handleFile_def readFileAsArrayBuffer_def buildSheetData_def
      setActiveSheetIndex_def filteredRows_def currentSheet_def maxRowsPreview_def)

theorem upload_keeps_searchTerm_witness:
  "filteredRows (fst (handleFile
      \<lparr>file_reader = (\<lambda>f. Some []),
       xlsx_read = (\<lambda>b. Inr \<lparr>SheetNames = [''People''], Sheets = (\<lambda>n. None :: unit option)\<rparr>),
       sheet_to_json = (\<lambda>s. [[JStr ''Name''], [JStr ''Asha''], [JStr ''Ravi'']])\<rparr>
      [\<lparr>file_name = ''Data.XLSX'', file_size = 0\<rparr>]
      (initial_state\<lparr>searchTerm := ''ASHA'', activeSheetIndex := 3\<rparr>)))
    = [[(''Name'', JStr ''Asha'')]]"
  using upload_keeps_searchTerm [OF valid_data_xlsx,
      of "\<lparr>file_reader = (\<lambda>f. Some []),
       xlsx_read = (\<lambda>b. Inr \<lparr>SheetNames = [''People''], Sheets = (\<lambda>n. None :: unit option)\<rparr>),
       sheet_to_json = (\<lambda>s. [[JStr ''Name''], [JStr ''Asha''], [JStr ''Ravi'']])\<rparr>"
      "[]" "\<lparr>SheetNames = [''People''], Sheets = (\<lambda>n. None)\<rparr>" "''People''" "[]" "[]"
      "initial_state\<lparr>searchTerm := ''ASHA'', activeSheetIndex := 3\<rparr>" 0]
    row_matches_asha row_matches_ravi
  by (simp add: build_names_sheet initial_state_def)

section \<open>Records and their keys\<close>

lemma build_sheet_counts:
  "columnCount (build_sheet nm rawRows) = length (headers (build_sheet nm rawRows))
   \<and> rowCount (build_sheet nm rawRows) = length (rows (build_sheet nm rawRows))"
  by (simp add: build_sheet_def Let_def split: list.splits)

lemma update_keeps_keys:
  "Object_keys (map (\<lambda>(k', v'). if k' = k then (k', v) else (k', v')) obj) = Object_keys obj"
  by (induction obj) (auto simp: Object_keys_def)

lemma insert_index_keys: "set (Object_keys (insert_index k v ps)) = insert k (set (Object_keys ps))"
  by (simp add: Object_keys_def insert_index_set)

lemma has_own_keys: "has_own obj k \<longleftrightarrow> k \<in> set (Object_keys obj)"
  by (simp add: has_own_def Object_keys_def)

lemma obj_define_keys: "set (Object_keys (obj_define obj k v)) = insert k (set (Object_keys obj))"
proof (cases "has_own obj k")
  case True
  then show ?thesis
    by (auto simp: obj_define_def update_keeps_keys has_own_keys)
next
  case False
  then show ?thesis
    by (cases "is_array_index k") (simp_all add: obj_define_def insert_index_keys, simp add: Object_keys_def)
qed

lemma obj_assign_keys:
  "set (Object_keys (obj_assign obj k v)) =
     (if k = ''__proto__'' then set (Object_keys obj) else insert k (set (Object_keys obj)))"
  by (simp add: obj_assign_def obj_define_keys)

lemma foldl_assign_keys:
  "set (Object_keys (foldl (\<lambda>record (index, header). obj_assign record header (f index)) acc ihs))
     = set (Object_keys acc) \<union> (snd ` set ihs - {''__proto__''})"
proof (induction ihs arbitrary: acc)
  case Nil
  then show ?case by simp
next
  case (Cons ih ihs)
  obtain i h where ih: "ih = (i, h)" by (cases ih)
  have "set (Object_keys (foldl (\<lambda>record (index, header). obj_assign record header (f index))
             (obj_assign acc h (f i)) ihs))
        = set (Object_keys (obj_assign acc h (f i))) \<union> (snd ` set ihs - {''__proto__''})"
    by (rule Cons.IH)
  then show ?case
    unfolding ih by (auto simp: obj_assign_keys split: if_splits)
qed

lemma build_record_keys: "set (Object_keys (build_record hs row)) = set hs - {''__proto__''}"
proof -
  have "snd ` set (enumerate 0 hs) = set hs"
    by (metis list.set_map map_snd_enumerate)
  then show ?thesis
    unfolding build_record_def
    using foldl_assign_keys [of "\<lambda>index. nullish_or (array_get row index) (JStr [])" "[]" "enumerate 0 hs"]
    by (simp add: Object_keys_def)
qed

text \<open>
  C3: the header row \<open>__proto__\<close>, \<open>B\<close> with the data row \<open>x\<close>, \<open>y\<close> gives two headers and a
  column count of 2, and a record whose only key is \<open>B\<close>.
\<close>

theorem build_sheet_proto_header:
  "build_sheet ''S'' [[JStr ''__proto__'', JStr ''B''], [JStr ''x'', JStr ''y'']]
     = \<lparr>name = ''S'', headers = [''__proto__'', ''B''], rows = [[(''B'', JStr ''y'')]],
        rowCount = 1, columnCount = 2\<rparr>"
  by code_simp

section \<open>The JSON export read back\<close>

lemma char_eq_iff_of_char: "c = d \<longleftrightarrow> (of_char c :: nat) = of_char d"
  by (metis char_of_char)

lemma of_char_of_small: "n < 256 \<Longrightarrow> (of_char (char_of n) :: nat) = n"
  by simp

lemma hex_val_hex_digit: "k < 16 \<Longrightarrow> hex_val (hex_digit k) = Some k"
  by (auto simp: hex_val_def hex_digit_def Let_def)

lemma hex4_escape: "n < 256 \<Longrightarrow> hex4 (CHR ''0'') (CHR ''0'') (hex_digit (n div 16)) (hex_digit (n mod 16)) = Some n"
proof -
  assume "n < 256"
  then have "n div 16 < 16" by simp
  moreover have "n mod 16 < 16" by simp
  moreover have "hex_val (CHR ''0'') = Some 0" by (simp add: hex_val_def)
  ultimately show ?thesis
    by (simp add: hex4_def hex_val_hex_digit)
qed

lemma parse_string_escape_char:
  "parse_string (json_escape_char c @ t) = cons_char c (parse_string t)"
proof -
  let ?n = "of_char c :: nat"
  have c: "char_of ?n = c" by simp
  have lt: "?n < 256" by simp
  consider "?n = 8" | "?n = 9" | "?n = 10" | "?n = 12" | "?n = 13" | "?n = 34" | "?n = 92"
    | "?n < 32" "?n \<notin> {8, 9, 10, 12, 13}" | "32 \<le> ?n" "?n \<noteq> 34" "?n \<noteq> 92"
    by fastforce
  then show ?thesis
  proof cases
    case 1
    then have "c = CHR 0x08" by (simp add: char_eq_iff_of_char)
    then show ?thesis by (simp add: json_escape_char_def unescape_def)
  next
    case 2
    then have "c = CHR 0x09" by (simp add: char_eq_iff_of_char)
    then show ?thesis by (simp add: json_escape_char_def unescape_def)
  next
    case 3
    then have "c = CHR 0x0A" by (simp add: char_eq_iff_of_char)
    then show ?thesis by (simp add: json_escape_char_def unescape_def)
  next
    case 4
    then have "c = CHR 0x0C" by (simp add: char_eq_iff_of_char)
    then show ?thesis by (simp add: json_escape_char_def unescape_def)
  next
    case 5
    then have "c = CHR 0x0D" by (simp add: char_eq_iff_of_char)
    then show ?thesis by (simp add: json_escape_char_def unescape_def)
  next
    case 6
    then have "c = CHR 0x22" by (simp add: char_eq_iff_of_char)
    then show ?thesis by (simp add: json_escape_char_def unescape_def)
  next
    case 7
    then have "c = CHR 0x5C" by (simp add: char_eq_iff_of_char)
    then show ?thesis by (simp add: json_escape_char_def unescape_def)
  next
    case 8
    then have esc: "json_escape_char c =
        [CHR 0x5C, CHR ''u'', CHR ''0'', CHR ''0'', hex_digit (?n div 16), hex_digit (?n mod 16)]"
      by (simp add: json_escape_char_def Let_def)
    show ?thesis
      unfolding esc using hex4_escape [OF lt] c lt by simp
  next
    case 9
    then have esc: "json_escape_char c = [c]"
      by (auto simp: json_escape_char_def Let_def)
    have "c \<noteq> CHR 0x22" "c \<noteq> CHR 0x5C"
      using 9 by (auto simp: char_eq_iff_of_char)
    then show ?thesis
      unfolding esc using 9 by simp
  qed
qed

lemma parse_string_escaped:
  "parse_string (concat (map json_escape_char s) @ CHR 0x22 # rest) = Some (s, rest)"
  by (induction s) (simp_all add: parse_string_escape_char cons_char_def)

lemma parse_string_quoted:
  "QuoteJSONString s @ rest = CHR 0x22 # t \<Longrightarrow> parse_string t = Some (s, rest)"
  by (auto simp: QuoteJSONString_def parse_string_escaped)

lemma nat_to_string_digits: "list_all is_digit (nat_to_string n)"
proof (induction n rule: nat_to_string.induct)
  case (1 n)
  show ?case
  proof (cases "n < 10")
    case True
    then show ?thesis by (simp add: nat_to_string.simps[of n] is_digit_digit_char)
  next
    case False
    with 1 show ?thesis by (simp add: nat_to_string.simps[of n] is_digit_digit_char)
  qed
qed

lemma nat_to_string_nonempty: "nat_to_string n \<noteq> []"
  by (simp add: nat_to_string.simps[of n])

lemma digit_char_zero_iff: "k < 10 \<Longrightarrow> digit_char k = CHR ''0'' \<longleftrightarrow> k = 0"
  by (auto simp: digit_char_def char_eq_iff_of_char)

lemma nat_to_string_leading:
  "hd (nat_to_string n) = CHR ''0'' \<Longrightarrow> n = 0"
proof (induction n rule: nat_to_string.induct)
  case (1 n)
  show ?case
  proof (cases "n < 10")
    case True
    with 1(2) show ?thesis by (simp add: nat_to_string.simps[of n] digit_char_zero_iff)
  next
    case False
    then have "hd (nat_to_string n) = hd (nat_to_string (n div 10))"
      by (simp add: nat_to_string.simps[of n] nat_to_string_nonempty)
    with 1 False have "n div 10 = 0" by simp
    with False show ?thesis by simp
  qed
qed

lemma nat_to_string_zero: "nat_to_string 0 = ''0''"
  by code_simp

lemma takeWhile_digits:
  "list_all is_digit ds \<Longrightarrow> rest = [] \<or> \<not> is_digit (hd rest) \<Longrightarrow>
   takeWhile is_digit (ds @ rest) = ds \<and> dropWhile is_digit (ds @ rest) = rest"
proof (induction ds)
  case Nil
  then show ?case by (cases rest) auto
next
  case (Cons d ds)
  then show ?case by auto
qed

lemma minus_not_digit: "\<not> is_digit (CHR ''-'')"
  by (simp add: is_digit_def)

lemma hd_digit_not_minus: "list_all is_digit ds \<Longrightarrow> ds \<noteq> [] \<Longrightarrow> hd ds \<noteq> CHR ''-''"
  using minus_not_digit by (cases ds) auto

lemma ends_number_props:
  "ends_number rest \<Longrightarrow> (rest = [] \<or> \<not> is_digit (hd rest)) \<and> \<not> (rest \<noteq> [] \<and> hd rest \<in> {CHR ''.'', CHR ''e'', CHR ''E''})"
  by (auto simp: ends_number_def is_digit_def)

lemma parse_number_nat:
  assumes "ends_number rest"
  shows "parse_number (nat_to_string n @ rest) = Some (JNum (int n), rest)"
proof -
  let ?ds = "nat_to_string n"
  have tw: "takeWhile is_digit (?ds @ rest) = ?ds" "dropWhile is_digit (?ds @ rest) = rest"
    using takeWhile_digits [OF nat_to_string_digits, of rest n] ends_number_props [OF assms] by auto
  have neg: "\<not> ((?ds @ rest) \<noteq> [] \<and> hd (?ds @ rest) = CHR ''-'')"
    using hd_digit_not_minus [OF nat_to_string_digits nat_to_string_nonempty, of n]
    by (simp add: nat_to_string_nonempty)
  have lead: "\<not> (hd ?ds = CHR ''0'' \<and> length ?ds > 1)"
    using nat_to_string_leading [of n] by (auto simp: nat_to_string_zero)
  show ?thesis
    unfolding parse_number_def Let_def
    using neg lead ends_number_props [OF assms]
    by (simp add: tw nat_to_string_nonempty digits_value_nat_to_string)
qed

lemma parse_number_neg:
  assumes "ends_number rest"
  shows "parse_number (CHR ''-'' # nat_to_string n @ rest) = Some (JNum (- int n), rest)"
proof -
  let ?ds = "nat_to_string n"
  have tw: "takeWhile is_digit (?ds @ rest) = ?ds" "dropWhile is_digit (?ds @ rest) = rest"
    using takeWhile_digits [OF nat_to_string_digits, of rest n] ends_number_props [OF assms] by auto
  have lead: "\<not> (hd ?ds = CHR ''0'' \<and> length ?ds > 1)"
    using nat_to_string_leading [of n] by (auto simp: nat_to_string_zero)
  show ?thesis
    unfolding parse_number_def Let_def
    using lead ends_number_props [OF assms]
    by (simp add: tw nat_to_string_nonempty digits_value_nat_to_string)
qed

lemma parse_number_int:
  "ends_number rest \<Longrightarrow> parse_number (int_to_string i @ rest) = Some (JNum i, rest)"
  by (simp add: int_to_string_def parse_number_nat parse_number_neg)

lemma stringify_flat: "is_flat v \<Longrightarrow> stringify ind v = Some (flat_text v)"
  by (cases v) simp_all

lemma skip_ws_indent:
  "list_all is_json_ws ind \<Longrightarrow> skip_ws (ind @ t) = skip_ws t"
  by (induction ind) (simp_all add: skip_ws_def)

lemma skip_ws_line_break:
  "list_all is_json_ws ind \<Longrightarrow> skip_ws (CHR 0x0A # ind @ t) = skip_ws t"
  using skip_ws_indent [of ind t] by (simp add: skip_ws_def is_json_ws_def)

lemma skip_ws_id: "\<not> is_json_ws c \<Longrightarrow> skip_ws (c # t) = c # t"
  by (simp add: skip_ws_def)

lemma skip_ws_space: "skip_ws (CHR '' '' # t) = skip_ws t"
  by (simp add: skip_ws_def is_json_ws_def)

lemma not_ws_simps:
  "\<not> is_json_ws (CHR 0x22)" "\<not> is_json_ws (CHR '':'')" "\<not> is_json_ws (CHR '','')"
  "\<not> is_json_ws (CHR ''}'')" "\<not> is_json_ws (CHR '']'')" "\<not> is_json_ws (CHR ''{'')"
  "\<not> is_json_ws (CHR ''['')"
  by (simp_all add: is_json_ws_def)

lemma int_to_string_first:
  "\<exists>c cs. int_to_string i = c # cs \<and> (is_digit c \<or> c = CHR ''-'')"
proof (cases "i < 0")
  case True
  then show ?thesis by (simp add: int_to_string_def)
next
  case False
  obtain c cs where "nat_to_string (nat i) = c # cs"
    using nat_to_string_nonempty [of "nat i"] by (cases "nat_to_string (nat i)") auto
  moreover from this have "is_digit c"
    using nat_to_string_digits [of "nat i"] by simp
  ultimately show ?thesis using False by (simp add: int_to_string_def)
qed

lemma parse_value_number:
  assumes "ends_number rest"
  shows "parse_value (Suc f) (int_to_string i @ rest) = Some (JNum i, rest)"
proof -
  obtain c cs where s: "int_to_string i = c # cs" and c: "is_digit c \<or> c = CHR ''-''"
    using int_to_string_first by blast
  have "c \<noteq> CHR 0x22" "c \<noteq> CHR ''[''" "c \<noteq> CHR ''{''" "c \<noteq> CHR ''t''" "c \<noteq> CHR ''f''" "c \<noteq> CHR ''n''"
    using c by (auto simp: is_digit_def)
  then have "parse_value (Suc f) (c # cs @ rest) = parse_number (c # cs @ rest)"
    by (simp add: startsWith_def parse_value.simps)
  then show ?thesis
    using parse_number_int [OF assms, of i] by (simp add: s)
qed

lemma parse_value_flat:
  assumes "is_flat v" and "ends_number rest"
  shows "parse_value (Suc f) (flat_text v @ rest) = Some (v, rest)"
proof (cases v)
  case (JNum n)
  then show ?thesis using parse_value_number [OF assms(2)] by simp
next
  case (JStr s)
  then show ?thesis by (simp add: QuoteJSONString_def parse_string_escaped parse_value.simps)
next
  case (JBool b)
  then show ?thesis by (simp add: startsWith_def parse_value.simps)
next
  case JNull
  then show ?thesis by (simp add: startsWith_def parse_value.simps)
qed (use assms in simp_all)

lemma flat_text_first: "is_flat v \<Longrightarrow> \<exists>c cs. flat_text v = c # cs \<and> \<not> is_json_ws c"
proof (cases v)
  case (JNum n)
  obtain c cs where "int_to_string n = c # cs" "is_digit c \<or> c = CHR ''-''"
    using int_to_string_first by blast
  then show ?thesis using JNum by (auto simp: is_json_ws_def is_digit_def)
qed (auto simp: QuoteJSONString_def is_json_ws_def)

lemma ends_number_simps:
  "ends_number (CHR 0x0A # t)" "ends_number (CHR '','' # t)"
  by (simp_all add: ends_number_def)

lemma parse_member_head:
  assumes "is_flat v" and "ends_number rest"
  shows "parse_string (tl (member_text (k, v) @ rest)) = Some (k, '': '' @ flat_text v @ rest)"
    and "hd (member_text (k, v) @ rest) = CHR 0x22"
    and "skip_ws ('' '' @ flat_text v @ rest) = flat_text v @ rest"
  using flat_text_first [OF assms(1)]
  by (auto simp: member_text_def QuoteJSONString_def parse_string_escaped skip_ws_space skip_ws_id)

lemma skip_ws_flat: "is_flat v \<Longrightarrow> skip_ws (flat_text v @ t) = flat_text v @ t"
  using flat_text_first [of v] by (auto simp: skip_ws_id)

lemma parse_members_step:
  assumes "is_flat v" and "ends_number R"
  shows "parse_members (Suc (Suc f)) (member_text (k, v) @ R) =
     (case skip_ws R of
        [] \<Rightarrow> None
      | d' # ds' \<Rightarrow>
          if d' = CHR '','' then
            (case parse_members (Suc f) (skip_ws ds') of
               None \<Rightarrow> None
             | Some (ms, rest'') \<Rightarrow> Some ((k, v) # ms, rest''))
          else if d' = CHR ''}'' then Some ([(k, v)], ds')
          else None)"
  using assms
  by (simp add: parse_members.simps member_text_def QuoteJSONString_def parse_string_escaped
      skip_ws_id not_ws_simps skip_ws_space skip_ws_flat parse_value_flat)

lemma member_text_first: "\<exists>cs. member_text p = CHR 0x22 # cs"
  by (simp add: member_text_def QuoteJSONString_def)

lemma join_first:
  "xs \<noteq> [] \<Longrightarrow> \<exists>cs. hd xs = c # cs \<Longrightarrow> \<exists>cs. join sep xs = c # cs"
  by (induction sep xs rule: join.induct) auto

lemma members_join_first:
  "ps \<noteq> [] \<Longrightarrow> \<exists>cs. join sep (map member_text ps) = CHR 0x22 # cs"
  using join_first [of "map member_text ps" "CHR 0x22" sep] member_text_first [of "hd ps"]
  by (simp add: hd_map)

lemma parse_members_join:
  assumes ind: "list_all is_json_ws ind'" "list_all is_json_ws ind"
  shows "ps \<noteq> [] \<Longrightarrow> list_all (\<lambda>p. is_flat (snd p)) ps \<Longrightarrow> length ps < f \<Longrightarrow>
     parse_members f (join (CHR '','' # CHR 0x0A # ind') (map member_text ps)
                        @ CHR 0x0A # ind @ CHR ''}'' # rest) = Some (ps, rest)"
proof (induction ps arbitrary: f rule: list_nonempty_induct)
  case (single p)
  obtain k v where p: "p = (k, v)" by (cases p)
  from single obtain f' where f: "f = Suc (Suc f')"
    by (metis One_nat_def length_Cons less_Suc_eq_0_disj list.size(3) not_less_eq old.nat.exhaust)
  have "is_flat v" using single p by simp
  then show ?case
    unfolding f p
    by (simp add: parse_members_step ends_number_simps skip_ws_line_break [OF ind(2)] skip_ws_id not_ws_simps)
next
  case (cons p ps)
  obtain k v where p: "p = (k, v)" by (cases p)
  from cons.prems obtain f' where f: "f = Suc (Suc f')"
    by (metis length_Cons less_Suc_eq_0_disj not_less_eq old.nat.exhaust list.size(3) not_less0)
  have flat: "is_flat v" using cons.prems p by simp
  obtain q qs where ps: "ps = q # qs" using cons.hyps by (cases ps) auto
  have IH: "parse_members (Suc f') (join (CHR '','' # CHR 0x0A # ind') (map member_text ps)
                        @ CHR 0x0A # ind @ CHR ''}'' # rest) = Some (ps, rest)"
    using cons.IH [of "Suc f'"] cons.prems f by simp
  obtain cs where first: "join (CHR '','' # CHR 0x0A # ind') (map member_text ps) = CHR 0x22 # cs"
    using members_join_first [OF cons.hyps] by blast
  have skip: "skip_ws (CHR 0x0A # ind' @ join (CHR '','' # CHR 0x0A # ind') (map member_text ps)
                        @ CHR 0x0A # ind @ CHR ''}'' # rest)
              = join (CHR '','' # CHR 0x0A # ind') (map member_text ps)
                        @ CHR 0x0A # ind @ CHR ''}'' # rest"
    by (simp add: skip_ws_line_break [OF ind(1)] first skip_ws_id not_ws_simps)
  have eq: "join (CHR '','' # CHR 0x0A # ind') (map member_text ((k, v) # ps))
          @ CHR 0x0A # ind @ CHR ''}'' # rest
        = member_text (k, v) @ (CHR '','' # CHR 0x0A # ind' @ join (CHR '','' # CHR 0x0A # ind') (map member_text ps)
                        @ CHR 0x0A # ind @ CHR ''}'' # rest)"
    by (simp add: ps)
  show ?case
    unfolding f p eq
    by (simp add: parse_members_step [OF flat ends_number_simps(2)] skip_ws_id not_ws_simps skip IH)
qed

lemma ordered_keys_snoc:
  "ordered_keys (ks @ [k]) \<longleftrightarrow>
     ordered_keys ks \<and> k \<notin> set ks \<and>
     (is_array_index k \<longrightarrow> list_all (\<lambda>k'. is_array_index k' \<and> digits_value k' < digits_value k) ks)"
  by (induction ks) (auto simp: list_all_iff)

lemma insert_index_at_end:
  "list_all (\<lambda>p. is_array_index (fst p) \<and> digits_value (fst p) < digits_value k) ps \<Longrightarrow>
   insert_index k v ps = ps @ [(k, v)]"
  by (induction ps) auto

lemma obj_define_new_last:
  assumes "ordered_keys (Object_keys ps @ [k])"
  shows "obj_define ps k v = ps @ [(k, v)]"
proof -
  from assms have new: "\<not> has_own ps k"
    and idx: "is_array_index k \<longrightarrow> list_all (\<lambda>k'. is_array_index k' \<and> digits_value k' < digits_value k) (Object_keys ps)"
    by (simp_all add: ordered_keys_snoc has_own_keys)
  show ?thesis
  proof (cases "is_array_index k")
    case True
    with idx have "list_all (\<lambda>p. is_array_index (fst p) \<and> digits_value (fst p) < digits_value k) ps"
      by (simp add: Object_keys_def list_all_iff)
    then show ?thesis using new True by (simp add: obj_define_def insert_index_at_end)
  next
    case False
    then show ?thesis using new by (simp add: obj_define_def)
  qed
qed

lemma rebuild_ordered:
  "ordered_keys (Object_keys ps) \<Longrightarrow> foldl (\<lambda>obj (k, v). obj_define obj k v) [] ps = ps"
proof (induction ps rule: rev_induct)
  case Nil
  then show ?case by simp
next
  case (snoc p ps)
  obtain k v where p: "p = (k, v)" by (cases p)
  from snoc.prems have ok: "ordered_keys (Object_keys ps @ [k])"
    by (simp add: Object_keys_def p)
  then have "ordered_keys (Object_keys ps)"
    by (simp add: ordered_keys_snoc)
  then have "foldl (\<lambda>obj (k, v). obj_define obj k v) [] ps = ps" by (rule snoc.IH)
  then show ?case
    by (simp add: p obj_define_new_last [OF ok])
qed

lemma foldl_digits: "foldl (\<lambda>a c. 10 * a + digit_val c) a s = a * 10 ^ length s + digits_value s"
proof (induction s arbitrary: a)
  case Nil
  then show ?case by (simp add: digits_value_def)
next
  case (Cons c s)
  have "foldl (\<lambda>a c. 10 * a + digit_val c) a (c # s)
        = (10 * a + digit_val c) * 10 ^ length s + digits_value s"
    using Cons [of "10 * a + digit_val c"] by simp
  moreover have "digits_value (c # s) = digit_val c * 10 ^ length s + digits_value s"
    using Cons [of "digit_val c"] by (simp add: digits_value_def)
  ultimately show ?case by (simp add: algebra_simps)
qed

lemma digits_value_Cons: "digits_value (c # s) = digit_val c * 10 ^ length s + digits_value s"
  using foldl_digits [of "digit_val c" s] by (simp add: digits_value_def)

lemma digit_char_digit_val: "is_digit c \<Longrightarrow> digit_char (nat (digit_val c)) = c"
  by (simp add: is_digit_def digit_char_def digit_val_def of_char_int nat_diff_distrib)

lemma digit_val_less: "is_digit c \<Longrightarrow> 0 \<le> digit_val c \<and> digit_val c < 10"
  by (auto simp: is_digit_def digit_val_def of_char_int)

lemma digit_val_pos: "is_digit c \<Longrightarrow> c \<noteq> CHR ''0'' \<Longrightarrow> 0 < digit_val c"
  by (auto simp: is_digit_def digit_val_def of_char_int char_eq_iff_of_char)

lemma digits_value_nonneg: "list_all is_digit s \<Longrightarrow> 0 \<le> digits_value s"
  by (induction s rule: rev_induct) (simp add: digits_value_def, use digit_val_less in \<open>fastforce simp: digits_value_snoc\<close>)

lemma canonical_digits:
  "s \<noteq> [] \<Longrightarrow> list_all is_digit s \<Longrightarrow> (hd s = CHR ''0'' \<longrightarrow> length s = 1) \<Longrightarrow>
   nat_to_string (nat (digits_value s)) = s"
proof (induction s rule: rev_induct)
  case Nil
  then show ?case by simp
next
  case (snoc d ds)
  have d: "is_digit d" using snoc.prems by simp
  note dv = digit_val_less [OF d]
  show ?case
  proof (cases "ds = []")
    case True
    have "nat (digit_val d) < 10" using dv by linarith
    then show ?thesis
      using True d by (simp add: digits_value_def nat_to_string.simps [of "nat (digit_val d)"]
          digit_char_digit_val)
  next
    case False
    then obtain c cs where ds: "ds = c # cs" by (cases ds) auto
    have c: "is_digit c" "c \<noteq> CHR ''0''" using snoc.prems ds by auto
    have IH: "nat_to_string (nat (digits_value ds)) = ds"
      using snoc.IH False snoc.prems(2) c ds by simp
    have nonneg: "0 \<le> digits_value cs"
      using snoc.prems(2) ds by (simp add: digits_value_nonneg)
    have pos: "0 < digits_value ds"
      using digit_val_pos [OF c] nonneg
      by (simp add: ds digits_value_Cons add_pos_nonneg)
    define a where "a = nat (digits_value ds)"
    define b where "b = nat (digit_val d)"
    have a: "digits_value ds = int a" "0 < a" using pos by (simp_all add: a_def)
    have b: "digit_val d = int b" "b < 10" using dv by (simp_all add: b_def) linarith
    have "10 * digits_value ds + digit_val d = int (10 * a + b)"
      by (simp add: a b)
    then have n: "nat (10 * digits_value ds + digit_val d) = 10 * a + b"
      by (simp only: nat_int)
    have "nat_to_string (10 * a + b) = nat_to_string a @ [digit_char b]"
      using a(2) b(2) by (simp add: nat_to_string.simps [of "10 * a + b"])
    then show ?thesis
      using IH digit_char_digit_val [OF d]
      by (simp add: digits_value_snoc n a_def b_def)
  qed
qed

lemma array_index_canonical: "is_array_index k \<Longrightarrow> nat_to_string (nat (digits_value k)) = k"
  by (rule canonical_digits) (auto simp: is_array_index_def split: if_splits)

lemma array_index_value_inj:
  "is_array_index a \<Longrightarrow> is_array_index b \<Longrightarrow> digits_value a = digits_value b \<Longrightarrow> a = b"
  by (metis array_index_canonical)

lemma Object_keys_Cons: "Object_keys ((k, v) # ps) = k # Object_keys ps"
  by (simp add: Object_keys_def)

lemma Object_keys_Nil: "Object_keys [] = []"
  by (simp add: Object_keys_def)

lemma insert_index_ordered:
  assumes "is_array_index k"
  shows "ordered_keys (Object_keys ps) \<Longrightarrow> k \<notin> set (Object_keys ps) \<Longrightarrow>
         ordered_keys (Object_keys (insert_index k v ps))"
proof (induction ps)
  case Nil
  then show ?case by (simp add: Object_keys_Cons Object_keys_Nil)
next
  case (Cons p ps)
  obtain k' v' where p: "p = (k', v')" by (cases p)
  have ne: "k' \<noteq> k" using Cons.prems(2) by (auto simp: Object_keys_Cons p)
  have tail: "ordered_keys (Object_keys ps)" "k \<notin> set (Object_keys ps)"
    using Cons.prems by (auto simp: Object_keys_Cons p)
  show ?case
  proof (cases "is_array_index k' \<and> digits_value k' < digits_value k")
    case True
    have "ordered_keys (Object_keys (insert_index k v ps))"
      using Cons.IH tail by simp
    moreover have "set (Object_keys (insert_index k v ps)) = insert k (set (Object_keys ps))"
      by (rule insert_index_keys)
    ultimately show ?thesis
      using True Cons.prems(1) ne
      by (auto simp: p Object_keys_Cons list_all_iff)
  next
    case False
    have later: "\<forall>k''\<in>set (Object_keys ps). is_array_index k'' \<longrightarrow> digits_value k < digits_value k''"
    proof (intro ballI impI)
      fix k'' assume k'': "k'' \<in> set (Object_keys ps)" "is_array_index k''"
      with Cons.prems(1) have idx: "is_array_index k'" and lt: "digits_value k' < digits_value k''"
        by (auto simp: p Object_keys_Cons list_all_iff split: if_splits)
      from idx False have "digits_value k \<le> digits_value k'" by simp
      with lt show "digits_value k < digits_value k''" by simp
    qed
    have first: "is_array_index k' \<longrightarrow> digits_value k < digits_value k'"
    proof
      assume idx: "is_array_index k'"
      with False have "digits_value k \<le> digits_value k'" by simp
      moreover have "digits_value k \<noteq> digits_value k'"
        using array_index_value_inj [OF assms idx] ne by auto
      ultimately show "digits_value k < digits_value k'" by simp
    qed
    show ?thesis
      using False Cons.prems assms later first
      by (auto simp: p Object_keys_Cons list_all_iff)
  qed
qed

lemma obj_define_ordered:
  assumes "ordered_keys (Object_keys obj)"
  shows "ordered_keys (Object_keys (obj_define obj k v))"
proof (cases "has_own obj k")
  case True
  then show ?thesis using assms by (simp add: obj_define_def update_keeps_keys)
next
  case False
  show ?thesis
  proof (cases "is_array_index k")
    case True
    then show ?thesis
      using False assms insert_index_ordered [OF True assms, of v]
      by (simp add: obj_define_def has_own_keys)
  next
    case idx: False
    have "Object_keys (obj @ [(k, v)]) = Object_keys obj @ [k]"
      by (simp add: Object_keys_def)
    then show ?thesis
      using False idx assms by (simp add: obj_define_def ordered_keys_snoc has_own_keys)
  qed
qed

lemma obj_assign_ordered:
  "ordered_keys (Object_keys obj) \<Longrightarrow> ordered_keys (Object_keys (obj_assign obj k v))"
  by (simp add: obj_assign_def obj_define_ordered)

lemma foldl_assign_ordered:
  "ordered_keys (Object_keys acc) \<Longrightarrow>
   ordered_keys (Object_keys (foldl (\<lambda>record (index, header). obj_assign record header (f index)) acc ihs))"
proof (induction ihs arbitrary: acc)
  case Nil
  then show ?case by simp
next
  case (Cons ih ihs)
  obtain i h where ih: "ih = (i, h)" by (cases ih)
  show ?case
    unfolding ih using Cons.IH [OF obj_assign_ordered [OF Cons.prems, of h "f i"]] by simp
qed

lemma build_record_ordered: "ordered_keys (Object_keys (build_record hs row))"
  unfolding build_record_def by (rule foldl_assign_ordered) (simp add: Object_keys_Nil)

lemma members_flat:
  "flat_record ps \<Longrightarrow>
   concat (map (\<lambda>p. case stringify ind (snd p) of None \<Rightarrow> []
                     | Some t \<Rightarrow> [QuoteJSONString (fst p) @ '': '' @ t]) ps)
   = map member_text ps"
  by (induction ps) (simp_all add: flat_record_def stringify_flat member_text_def)

lemma stringify_record:
  "flat_record ps \<Longrightarrow> stringify ind (JObj ps) = Some (record_text ind ps)"
  by (simp add: members_flat record_text_def line_break_def Let_def)

lemma gap_ws: "list_all is_json_ws ind \<Longrightarrow> list_all is_json_ws (ind @ gap)"
  by (simp add: gap_def is_json_ws_def)

lemma parse_value_record:
  assumes flat: "flat_record ps" and ord: "ordered_keys (Object_keys ps)"
    and ind: "list_all is_json_ws ind" and fuel: "length ps + 2 \<le> f"
  shows "parse_value f (record_text ind ps @ rest) = Some (JObj ps, rest)"
proof -
  from fuel obtain f' where f: "f = Suc f'" and f': "length ps < f'"
    by (cases f) auto
  show ?thesis
  proof (cases "ps = []")
    case True
    then show ?thesis
      by (simp add: f record_text_def parse_value.simps skip_ws_id not_ws_simps)
  next
    case False
    obtain cs where first: "join (CHR '','' # CHR 0x0A # (ind @ gap)) (map member_text ps) = CHR 0x22 # cs"
      using members_join_first [OF False] by blast
    have members: "parse_members f' (join (CHR '','' # CHR 0x0A # (ind @ gap)) (map member_text ps)
                        @ CHR 0x0A # ind @ CHR ''}'' # rest) = Some (ps, rest)"
      using parse_members_join [OF gap_ws [OF ind] ind False _ f'] flat
      by (simp add: flat_record_def)
    have skip: "skip_ws (CHR 0x0A # (ind @ gap) @ join (CHR '','' # CHR 0x0A # (ind @ gap)) (map member_text ps)
                        @ CHR 0x0A # ind @ CHR ''}'' # rest)
        = join (CHR '','' # CHR 0x0A # (ind @ gap)) (map member_text ps)
                        @ CHR 0x0A # ind @ CHR ''}'' # rest"
      by (simp only: skip_ws_line_break [OF gap_ws [OF ind]]) (simp add: first skip_ws_id not_ws_simps)
    have "parse_value f (record_text ind ps @ rest)
        = (case parse_members f' (join (CHR '','' # CHR 0x0A # (ind @ gap)) (map member_text ps)
                        @ CHR 0x0A # ind @ CHR ''}'' # rest) of
             None \<Rightarrow> None
           | Some (ms, rest') \<Rightarrow> Some (JObj (foldl (\<lambda>obj (k, v). obj_define obj k v) [] ms), rest'))"
      using False skip first
      by (simp add: f record_text_def parse_value.simps)
    then show ?thesis
      by (simp add: members rebuild_ordered [OF ord])
  qed
qed

lemma record_text_first: "\<exists>cs. record_text ind ps = CHR ''{'' # cs"
  by (simp add: record_text_def)

lemma parse_elements_step:
  assumes "safe_record r" and "list_all is_json_ws ind'" and "length r + 2 \<le> f"
  shows "parse_elements (Suc f) (record_text ind' r @ R) =
     (case skip_ws R of
        [] \<Rightarrow> None
      | d # ds \<Rightarrow>
          if d = CHR '','' then
            (case parse_elements f (skip_ws ds) of
               None \<Rightarrow> None
             | Some (vs, rest') \<Rightarrow> Some (JObj r # vs, rest'))
          else if d = CHR '']'' then Some ([JObj r], ds)
          else None)"
  using assms parse_value_record [of r ind' f R]
  by (simp add: parse_elements.simps safe_record_def)

lemma records_join_first:
  "rs \<noteq> [] \<Longrightarrow> \<exists>cs. join sep (map (record_text ind) rs) = CHR ''{'' # cs"
  using join_first [of "map (record_text ind) rs" "CHR ''{''" sep] record_text_first [of ind "hd rs"]
  by (simp add: hd_map)

lemma parse_elements_join:
  assumes ind: "list_all is_json_ws ind'" "list_all is_json_ws ind"
  shows "rs \<noteq> [] \<Longrightarrow> list_all safe_record rs \<Longrightarrow> sum_list (map (\<lambda>r. length r + 3) rs) \<le> f \<Longrightarrow>
     parse_elements f (join (CHR '','' # CHR 0x0A # ind') (map (record_text ind') rs)
                         @ CHR 0x0A # ind @ CHR '']'' # rest) = Some (map JObj rs, rest)"
proof (induction rs arbitrary: f rule: list_nonempty_induct)
  case (single r)
  then obtain f' where f: "f = Suc f'" and f': "length r + 2 \<le> f'"
    by (cases f) auto
  have safe: "safe_record r" using single by simp
  show ?case
    unfolding f
    by (simp add: parse_elements_step [OF safe ind(1) f'] skip_ws_line_break [OF ind(2)]
        skip_ws_id not_ws_simps)
next
  case (cons r rs)
  then obtain f' where f: "f = Suc f'" and f': "length r + 2 \<le> f'"
      and rest_fuel: "sum_list (map (\<lambda>r. length r + 3) rs) \<le> f'"
    by (cases f) auto
  have safe: "safe_record r" and safes: "list_all safe_record rs" using cons.prems by simp_all
  obtain q qs where rs: "rs = q # qs" using cons.hyps by (cases rs) auto
  have IH: "parse_elements f' (join (CHR '','' # CHR 0x0A # ind') (map (record_text ind') rs)
                         @ CHR 0x0A # ind @ CHR '']'' # rest) = Some (map JObj rs, rest)"
    using cons.IH [OF safes rest_fuel] .
  obtain cs where first: "join (CHR '','' # CHR 0x0A # ind') (map (record_text ind') rs) = CHR ''{'' # cs"
    using records_join_first [OF cons.hyps] by blast
  have skip: "skip_ws (CHR 0x0A # ind' @ join (CHR '','' # CHR 0x0A # ind') (map (record_text ind') rs)
                         @ CHR 0x0A # ind @ CHR '']'' # rest)
      = join (CHR '','' # CHR 0x0A # ind') (map (record_text ind') rs) @ CHR 0x0A # ind @ CHR '']'' # rest"
    by (simp only: skip_ws_line_break [OF ind(1)]) (simp add: first skip_ws_id not_ws_simps)
  have eq: "join (CHR '','' # CHR 0x0A # ind') (map (record_text ind') (r # rs))
              @ CHR 0x0A # ind @ CHR '']'' # rest
          = record_text ind' r @ (CHR '','' # CHR 0x0A # ind'
              @ join (CHR '','' # CHR 0x0A # ind') (map (record_text ind') rs)
              @ CHR 0x0A # ind @ CHR '']'' # rest)"
    by (simp add: rs)
  show ?case
    unfolding f eq
    by (simp add: parse_elements_step [OF safe ind(1) f'] skip_ws_id not_ws_simps skip IH)
qed

lemma join_length:
  "xs \<noteq> [] \<Longrightarrow> length (join sep xs) + length sep = sum_list (map (\<lambda>x. length x + length sep) xs)"
  by (induction sep xs rule: join.induct) simp_all

lemma join_length_ge: "list_all (\<lambda>x. x \<noteq> []) xs \<Longrightarrow> length xs \<le> length (join sep xs)"
proof (induction sep xs rule: join.induct)
  case (2 sep x)
  then show ?case by (cases x) simp_all
next
  case (3 sep x y ys)
  then show ?case by (cases x) simp_all
qed simp

lemma member_text_nonempty: "member_text p \<noteq> []"
  using member_text_first [of p] by auto

lemma record_text_length: "length r + 2 \<le> length (record_text ind r)"
proof (cases "r = []")
  case True
  then show ?thesis by (simp add: record_text_def)
next
  case False
  have "length (map member_text r) \<le> length (join (CHR '','' # CHR 0x0A # (ind @ gap)) (map member_text r))"
    by (rule join_length_ge) (simp add: list_all_iff member_text_nonempty)
  then show ?thesis using False by (simp add: record_text_def)
qed

lemma records_fuel:
  assumes "rs \<noteq> []"
  shows "sum_list (map (\<lambda>r. length r + 3) rs)
           \<le> length (join (CHR '','' # CHR 0x0A # gap) (map (record_text gap) rs)) + 4"
proof -
  have "sum_list (map (\<lambda>r. length r + 3) rs)
          \<le> sum_list (map (\<lambda>r. length (record_text gap r) + length (CHR '','' # CHR 0x0A # gap)) rs)"
    by (rule sum_list_mono) (use record_text_length [of _ gap] in \<open>simp add: gap_def le_SucI trans_le_add1\<close>)
  also have "\<dots> = length (join (CHR '','' # CHR 0x0A # gap) (map (record_text gap) rs))
                   + length (CHR '','' # CHR 0x0A # gap)"
    using join_length [of "map (record_text gap) rs" "CHR '','' # CHR 0x0A # gap"] assms
    by (simp add: comp_def)
  finally show ?thesis by (simp add: gap_def)
qed

lemma stringify_records:
  assumes "list_all safe_record rs"
  shows "JSON_stringify (JArr (map JObj rs)) = Some (records_text rs)"
proof -
  have items: "map (\<lambda>x. case stringify ([] @ gap) x of None \<Rightarrow> ''null'' | Some t \<Rightarrow> t) (map JObj rs)
        = map (record_text gap) rs"
    using assms by (induction rs) (simp_all add: safe_record_def stringify_record del: stringify.simps)
  have "stringify [] (JArr (map JObj rs)) =
     Some (if map JObj rs = [] then ''[]''
           else ''['' @ line_break @ ([] @ gap)
                @ join ('','' @ line_break @ ([] @ gap))
                    (map (\<lambda>x. case stringify ([] @ gap) x of None \<Rightarrow> ''null'' | Some t \<Rightarrow> t) (map JObj rs))
                @ line_break @ [] @ '']'')"
    by (rule stringify.simps)
  then show ?thesis
    unfolding items by (simp add: JSON_stringify_def records_text_def line_break_def)
qed

lemma parse_records:
  assumes "list_all safe_record rs"
  shows "JSON_parse (records_text rs) = Some (JArr (map JObj rs))"
proof (cases "rs = []")
  case True
  have "parse_value (Suc (Suc 0)) ''[]'' = Some (JArr [], [])"
    by (simp add: parse_value.simps skip_ws_id not_ws_simps)
  then show ?thesis
    using True by (simp add: JSON_parse_def records_text_def skip_ws_id not_ws_simps skip_ws_def)
next
  case False
  let ?E = "join (CHR '','' # CHR 0x0A # gap) (map (record_text gap) rs)"
  define R where "R = ?E @ CHR 0x0A # [] @ CHR '']'' # []"
  define f where "f = length ?E + 5"
  obtain cs where first: "?E = CHR ''{'' # cs"
    using records_join_first [OF False] by blast
  have R_first: "R = CHR ''{'' # (cs @ [CHR 0x0A, CHR '']''])"
    by (simp add: R_def first)
  have shape: "records_text rs = CHR ''['' # CHR 0x0A # gap @ R"
    using False by (simp add: records_text_def R_def)
  have len: "length (records_text rs) = Suc f"
    by (simp add: shape R_def f_def gap_def)
  have gapws: "list_all is_json_ws gap"
    by (simp add: gap_def is_json_ws_def)
  have elems: "parse_elements f R = Some (map JObj rs, [])"
    unfolding R_def f_def using records_fuel [OF False]
    by (intro parse_elements_join [OF gapws _ False assms]) simp_all
  have "skip_ws (CHR 0x0A # gap @ R) = skip_ws R"
    by (rule skip_ws_line_break [OF gapws])
  then have skip: "skip_ws (CHR 0x0A # gap @ R) = R"
    by (simp add: R_first skip_ws_id not_ws_simps)
  have "parse_value (Suc f) (CHR ''['' # CHR 0x0A # gap @ R)
        = (case R of [] \<Rightarrow> None
           | d # ds \<Rightarrow> if d = CHR '']'' then Some (JArr [], ds)
                       else (case parse_elements f (d # ds) of
                               None \<Rightarrow> None
                             | Some (vs, rest) \<Rightarrow> Some (JArr vs, rest)))"
    by (simp add: parse_value.simps skip)
  also have "\<dots> = (case parse_elements f R of None \<Rightarrow> None | Some (vs, rest) \<Rightarrow> Some (JArr vs, rest))"
    by (simp add: R_first)
  finally have "parse_value (Suc f) (CHR ''['' # CHR 0x0A # gap @ R) = Some (JArr (map JObj rs), [])"
    by (simp add: elems)
  then show ?thesis
    by (simp only: JSON_parse_def len) (simp add: shape skip_ws_id not_ws_simps skip_ws_def)
qed

lemma foldl_assign_values:
  assumes "\<And>i. P (f i)"
  shows "list_all P (Object_values acc) \<Longrightarrow>
   list_all P (Object_values
     (foldl (\<lambda>record (index, header). obj_assign record header (f index)) acc ihs))"
proof (induction ihs arbitrary: acc)
  case Nil
  then show ?case by simp
next
  case (Cons ih ihs)
  obtain i h where ih: "ih = (i, h)" by (cases ih)
  have "list_all P (Object_values (obj_assign acc h (f i)))"
    using Cons.prems assms [of i] obj_assign_values [of _ acc h "f i"]
    by (fastforce simp: list_all_iff Object_values_def)
  from Cons.IH [OF this] show ?case by (simp add: ih)
qed

lemma cell_value_flat:
  "list_all is_primitive row \<Longrightarrow> is_flat (nullish_or (array_get row i) (JStr []))"
proof -
  assume "list_all is_primitive row"
  then have "is_primitive (array_get row i)"
    by (simp add: array_get_def list_all_length)
  then show ?thesis
    by (cases "array_get row i") (simp_all add: nullish_or_def)
qed

lemma build_record_safe:
  assumes "list_all is_primitive row"
  shows "safe_record (build_record hs row)"
proof -
  have "list_all is_flat (Object_values (build_record hs row))"
    unfolding build_record_def
    by (rule foldl_assign_values) (simp_all add: cell_value_flat [OF assms] Object_values_def)
  then show ?thesis
    by (simp add: safe_record_def flat_record_def build_record_ordered Object_values_def list_all_iff)
qed

lemma build_sheet_safe:
  assumes "list_all (list_all is_primitive) rawRows"
  shows "list_all safe_record (rows (build_sheet nm rawRows))"
  using assms
  by (cases rawRows) (simp_all add: build_sheet_def Let_def list_all_iff build_record_safe)

lemma downloadAsJson_parse:
  assumes "list_all safe_record (rows sheet)"
  shows "JSON_parse (blob_text (downloadAsJson sheet)) = Some (JArr (map JObj (rows sheet)))"
  using assms by (simp add: downloadAsJson_def stringify_records parse_records)

lemma people_sheet:
  "build_sheet ''People'' [[JStr ''Name'', JStr ''2024'', JNum 7], [JStr ''Asha \"A\"'', JNum (-3)]]
   = \<lparr>name = ''People'', headers = [''Name'', ''2024'', ''7''],
      rows = [[(''7'', JStr []), (''2024'', JNum (-3)), (''Name'', JStr ''Asha \"A\"'')]],
      rowCount = 1, columnCount = 3\<rparr>"
  by code_simp

text \<open>
  C8: for every sheet that normalization builds from rows whose cells are neither arrays
  nor objects, parsing the text of the JSON export succeeds and gives back the array of the
  sheet's records: the same keys in the same order with the same values.
\<close>

theorem json_export_round_trip:
  assumes "sheet \<in> set (buildSheetData to_json wb)"
    and "\<And>ws. list_all (list_all is_primitive) (to_json ws)"
  shows "JSON_parse (blob_text (downloadAsJson sheet)) = Some (JArr (map JObj (rows sheet)))"
proof -
  from assms(1) obtain nm where "sheet = build_sheet nm (to_json (Sheets wb nm))"
    by (auto simp: buildSheetData_def)
  then have "list_all safe_record (rows sheet)"
    using build_sheet_safe [OF assms(2)] by simp
  then show ?thesis by (rule downloadAsJson_parse)
qed

theorem json_export_round_trip_witness:
  "JSON_parse (blob_text (downloadAsJson
      \<lparr>name = ''People'', headers = [''Name'', ''2024'', ''7''],
      rows = [[(''7'', JStr []), (''2024'', JNum (-3)), (''Name'', JStr ''Asha \"A\"'')]],
      rowCount = 1, columnCount = 3\<rparr>))
   = Some (JArr [JObj [(''7'', JStr []), (''2024'', JNum (-3)), (''Name'', JStr ''Asha \"A\"'')]])"
proof -
  let ?raw = "[[JStr ''Name'', JStr ''2024'', JNum 7], [JStr ''Asha \"A\"'', JNum (-3)]]"
  let ?sheet = "\<lparr>name = ''People'', headers = [''Name'', ''2024'', ''7''],
      rows = [[(''7'', JStr []), (''2024'', JNum (-3)), (''Name'', JStr ''Asha \"A\"'')]],
      rowCount = 1, columnCount = 3\<rparr>"
  have "buildSheetData (\<lambda>ws. ?raw) \<lparr>SheetNames = [''People''], Sheets = (\<lambda>n. None :: unit option)\<rparr>
          = [?sheet]"
    by (simp only: buildSheetData_def WorkBook.simps list.map people_sheet)
  then have mem: "?sheet \<in> set (buildSheetData (\<lambda>ws. ?raw)
      \<lparr>SheetNames = [''People''], Sheets = (\<lambda>n. None :: unit option)\<rparr>)"
    by (simp only: list.set_intros)
  have prim: "\<And>ws :: unit option. list_all (list_all is_primitive) ((\<lambda>ws. ?raw) ws)"
    by simp
  have "JSON_parse (blob_text (downloadAsJson ?sheet)) = Some (JArr (map JObj (rows ?sheet)))"
    using mem prim by (rule json_export_round_trip)
  then show ?thesis
    by (simp only: SheetRows.simps list.map)
qed

section \<open>Header synthesis\<close>

lemma trim_middle:
  "dropWhile is_white_space s =
     trim s @ rev (takeWhile is_white_space (rev (dropWhile is_white_space s)))"
proof -
  let ?m = "dropWhile is_white_space s"
  have "rev (takeWhile is_white_space (rev ?m) @ dropWhile is_white_space (rev ?m)) = rev (rev ?m)"
    by (simp only: takeWhile_dropWhile_id)
  then show ?thesis
    by (simp only: rev_append rev_rev_ident trim_def)
qed

lemma trim_decompose:
  "s = takeWhile is_white_space s @ trim s @ rev (takeWhile is_white_space (rev (dropWhile is_white_space s)))"
proof -
  have "s = takeWhile is_white_space s @ dropWhile is_white_space s"
    by simp
  then show ?thesis
    using trim_middle [of s] by simp
qed

lemma trim_last: "trim s \<noteq> [] \<Longrightarrow> \<not> is_white_space (last (trim s))"
proof -
  assume "trim s \<noteq> []"
  then have ne: "dropWhile is_white_space (rev (dropWhile is_white_space s)) \<noteq> []"
    by (simp add: trim_def)
  then have "\<not> is_white_space (hd (dropWhile is_white_space (rev (dropWhile is_white_space s))))"
    by (rule hd_dropWhile)
  then show ?thesis
    using ne by (simp add: trim_def last_rev)
qed

lemma trim_hd: "trim s \<noteq> [] \<Longrightarrow> \<not> is_white_space (hd (trim s))"
proof -
  assume ne: "trim s \<noteq> []"
  let ?m = "dropWhile is_white_space s"
  have "?m = trim s @ rev (takeWhile is_white_space (rev ?m))"
    by (rule trim_middle)
  then have "hd ?m = hd (trim s)" and "?m \<noteq> []"
    using ne by (metis hd_append2, metis append_is_Nil_conv)
  then show ?thesis
    using hd_dropWhile [of is_white_space s] by simp
qed

lemma trim_spec:
  "\<exists>before after. s = before @ trim s @ after
      \<and> list_all (\<lambda>c. of_char c \<in> {9, 10, 11, 12, 13, 32, 160 :: nat}) before
      \<and> list_all (\<lambda>c. of_char c \<in> {9, 10, 11, 12, 13, 32, 160 :: nat}) after
      \<and> (trim s = [] \<or> (of_char (hd (trim s)) \<notin> {9, 10, 11, 12, 13, 32, 160 :: nat}
                          \<and> of_char (last (trim s)) \<notin> {9, 10, 11, 12, 13, 32, 160 :: nat}))"
proof -
  have ws: "(\<lambda>c. of_char c \<in> {9, 10, 11, 12, 13, 32, 160 :: nat}) = is_white_space"
    by (rule ext) (simp add: is_white_space_def)
  let ?before = "takeWhile is_white_space s"
  let ?after = "rev (takeWhile is_white_space (rev (dropWhile is_white_space s)))"
  have "s = ?before @ trim s @ ?after" by (rule trim_decompose)
  moreover have "list_all is_white_space ?before"
    by (simp add: list_all_iff) (meson set_takeWhileD)
  moreover have "list_all is_white_space ?after"
    by (simp add: list_all_iff) (meson set_takeWhileD)
  moreover have "trim s = [] \<or> (\<not> is_white_space (hd (trim s)) \<and> \<not> is_white_space (last (trim s)))"
    using trim_hd trim_last by blast
  ultimately have "s = ?before @ trim s @ ?after
      \<and> list_all is_white_space ?before \<and> list_all is_white_space ?after
      \<and> (trim s = [] \<or> (\<not> is_white_space (hd (trim s)) \<and> \<not> is_white_space (last (trim s))))"
    by simp
  then have "\<exists>before after. s = before @ trim s @ after
      \<and> list_all is_white_space before \<and> list_all is_white_space after
      \<and> (trim s = [] \<or> (\<not> is_white_space (hd (trim s)) \<and> \<not> is_white_space (last (trim s))))"
    by blast
  then show ?thesis
    unfolding ws by (simp add: is_white_space_def)
qed

lemma header_of_no_text:
  "opt_toString cell = None \<Longrightarrow> header_of i cell = ''Column '' @ nat_to_string (i + 1)"
  by (simp add: header_of_def)

lemma header_of_text:
  "opt_toString cell = Some s \<Longrightarrow>
   header_of i cell = (if trim s = [] then ''Column '' @ nat_to_string (i + 1) else trim s)"
  by (simp add: header_of_def)

lemma sample_headers:
  "headers (build_sheet ''Sheet1''
      [[JStr '' Name  '', JStr '''', JStr ''Age'', JNull, JStr [CHR 0x09, CHR '' ''], JNum 7],
       [JStr ''Asha'', JNum 1, JNum 30]])
     = [''Name'', ''Column 2'', ''Age'', ''Column 4'', ''Column 5'', ''7'']"
  by code_simp

text \<open>
  C9: for a sheet with at least one row there is one header per cell of the first row. A
  cell without text (\<open>undefined\<close>, \<open>null\<close>) gives \<open>Column n\<close>. A cell with the text \<open>s\<close> gives
  the part \<open>t\<close> of \<open>s\<close> that is left when the white space before and after it is taken away
  (\<open>t\<close> neither starts nor ends with white space), or \<open>Column n\<close> when nothing is left. Here
  \<open>n\<close> is the position counted from 1, written in decimal digits without a leading zero.
\<close>

theorem build_sheet_headers:
  "length (headers (build_sheet nm (headerRow # dataRows))) = length headerRow
   \<and> (\<forall>i < length headerRow.
        (opt_toString (headerRow ! i) = None \<longrightarrow>
           headers (build_sheet nm (headerRow # dataRows)) ! i = ''Column '' @ nat_to_string (i + 1))
        \<and> (\<forall>s. opt_toString (headerRow ! i) = Some s \<longrightarrow>
             (\<exists>before t after.
                s = before @ t @ after
                \<and> list_all (\<lambda>c. of_char c \<in> {9, 10, 11, 12, 13, 32, 160 :: nat}) before
                \<and> list_all (\<lambda>c. of_char c \<in> {9, 10, 11, 12, 13, 32, 160 :: nat}) after
                \<and> (t = [] \<or> (of_char (hd t) \<notin> {9, 10, 11, 12, 13, 32, 160 :: nat}
                               \<and> of_char (last t) \<notin> {9, 10, 11, 12, 13, 32, 160 :: nat}))
                \<and> headers (build_sheet nm (headerRow # dataRows)) ! i
                    = (if t = [] then ''Column '' @ nat_to_string (i + 1) else t))))
   \<and> (\<forall>n. digits_value (nat_to_string n) = int n \<and> list_all is_digit (nat_to_string n)
            \<and> nat_to_string n \<noteq> [] \<and> (hd (nat_to_string n) = CHR ''0'' \<longrightarrow> n = 0))"
proof -
  have hs: "headers (build_sheet nm (headerRow # dataRows)) = build_headers headerRow"
    by (simp add: build_sheet_def Let_def)
  have cells: "(opt_toString (headerRow ! i) = None \<longrightarrow>
           build_headers headerRow ! i = ''Column '' @ nat_to_string (i + 1))
        \<and> (\<forall>s. opt_toString (headerRow ! i) = Some s \<longrightarrow>
             (\<exists>before t after.
                s = before @ t @ after
                \<and> list_all (\<lambda>c. of_char c \<in> {9, 10, 11, 12, 13, 32, 160 :: nat}) before
                \<and> list_all (\<lambda>c. of_char c \<in> {9, 10, 11, 12, 13, 32, 160 :: nat}) after
                \<and> (t = [] \<or> (of_char (hd t) \<notin> {9, 10, 11, 12, 13, 32, 160 :: nat}
                               \<and> of_char (last t) \<notin> {9, 10, 11, 12, 13, 32, 160 :: nat}))
                \<and> build_headers headerRow ! i
                    = (if t = [] then ''Column '' @ nat_to_string (i + 1) else t)))"
    if i: "i < length headerRow" for i
  proof (intro conjI impI allI)
    assume "opt_toString (headerRow ! i) = None"
    then show "build_headers headerRow ! i = ''Column '' @ nat_to_string (i + 1)"
      by (simp add: build_headers_nth [OF i] header_of_no_text)
  next
    fix s assume s: "opt_toString (headerRow ! i) = Some s"
    obtain before after where parts: "s = before @ trim s @ after"
        "list_all (\<lambda>c. of_char c \<in> {9, 10, 11, 12, 13, 32, 160 :: nat}) before"
        "list_all (\<lambda>c. of_char c \<in> {9, 10, 11, 12, 13, 32, 160 :: nat}) after"
        "trim s = [] \<or> (of_char (hd (trim s)) \<notin> {9, 10, 11, 12, 13, 32, 160 :: nat}
                          \<and> of_char (last (trim s)) \<notin> {9, 10, 11, 12, 13, 32, 160 :: nat})"
      using trim_spec [of s] by blast
    have "build_headers headerRow ! i
            = (if trim s = [] then ''Column '' @ nat_to_string (i + 1) else trim s)"
      by (simp only: build_headers_nth [OF i] header_of_text [OF s])
    with parts show "\<exists>before t after.
                s = before @ t @ after
                \<and> list_all (\<lambda>c. of_char c \<in> {9, 10, 11, 12, 13, 32, 160 :: nat}) before
                \<and> list_all (\<lambda>c. of_char c \<in> {9, 10, 11, 12, 13, 32, 160 :: nat}) after
                \<and> (t = [] \<or> (of_char (hd t) \<notin> {9, 10, 11, 12, 13, 32, 160 :: nat}
                               \<and> of_char (last t) \<notin> {9, 10, 11, 12, 13, 32, 160 :: nat}))
                \<and> build_headers headerRow ! i
                    = (if t = [] then ''Column '' @ nat_to_string (i + 1) else t)"
      by blast
  qed
  have digits: "digits_value (nat_to_string n) = int n \<and> list_all is_digit (nat_to_string n)
            \<and> nat_to_string n \<noteq> [] \<and> (hd (nat_to_string n) = CHR ''0'' \<longrightarrow> n = 0)" for n
    using nat_to_string_leading [of n]
    by (simp add: digits_value_nat_to_string nat_to_string_digits nat_to_string_nonempty)
  show ?thesis
    unfolding hs using cells digits by (simp add: build_headers_length)
qed

theorem build_sheet_headers_witness:
  "headers (build_sheet ''Sheet1''
      [[JStr '' Name  '', JStr '''', JStr ''Age'', JNull, JStr [CHR 0x09, CHR '' ''], JNum 7],
       [JStr ''Asha'', JNum 1, JNum 30]])
     = [''Name'', ''Column 2'', ''Age'', ''Column 4'', ''Column 5'', ''7'']
   \<and> (\<exists>before t after.
          '' Name  '' = before @ t @ after
          \<and> list_all (\<lambda>c. of_char c \<in> {9, 10, 11, 12, 13, 32, 160 :: nat}) before
          \<and> list_all (\<lambda>c. of_char c \<in> {9, 10, 11, 12, 13, 32, 160 :: nat}) after
          \<and> (t = [] \<or> (of_char (hd t) \<notin> {9, 10, 11, 12, 13, 32, 160 :: nat}
                         \<and> of_char (last t) \<notin> {9, 10, 11, 12, 13, 32, 160 :: nat}))
          \<and> ''Name'' = (if t = [] then ''Column '' @ nat_to_string (0 + 1) else t))"
proof -
  let ?row = "[JStr '' Name  '', JStr '''', JStr ''Age'', JNull, JStr [CHR 0x09, CHR '' ''], JNum 7]"
  let ?sheet = "build_sheet ''Sheet1'' [?row, [JStr ''Asha'', JNum 1, JNum 30]]"
  have "\<forall>s. opt_toString (?row ! 0) = Some s \<longrightarrow>
             (\<exists>before t after.
                s = before @ t @ after
                \<and> list_all (\<lambda>c. of_char c \<in> {9, 10, 11, 12, 13, 32, 160 :: nat}) before
                \<and> list_all (\<lambda>c. of_char c \<in> {9, 10, 11, 12, 13, 32, 160 :: nat}) after
                \<and> (t = [] \<or> (of_char (hd t) \<notin> {9, 10, 11, 12, 13, 32, 160 :: nat}
                               \<and> of_char (last t) \<notin> {9, 10, 11, 12, 13, 32, 160 :: nat}))
                \<and> headers ?sheet ! 0 = (if t = [] then ''Column '' @ nat_to_string (0 + 1) else t))"
    using build_sheet_headers [of "''Sheet1''" ?row "[[JStr ''Asha'', JNum 1, JNum 30]]"]
    by (elim conjE allE [of _ 0]) simp
  moreover have "opt_toString (?row ! 0) = Some '' Name  ''"
    by simp
  moreover have "headers ?sheet ! 0 = ''Name''"
    by (simp only: sample_headers nth_Cons_0)
  ultimately show ?thesis
    by (simp only: sample_headers simp_thms)
qed

section \<open>The CSV export\<close>









lemma downloadAsCsv_rows_only:
  "rows sheet = rows sheet' \<Longrightarrow>
   blob_text (downloadAsCsv to_sheet to_csv sheet) = blob_text (downloadAsCsv to_sheet to_csv sheet')"
  by (simp add: downloadAsCsv_def)

lemma csv_no_rows: "xlsx_sheet_to_csv (xlsx_json_to_sheet []) = []"
  by (simp add: xlsx_sheet_to_csv_def xlsx_json_to_sheet_def csv_columns_def)




lemma sample_rows:
  "rows (build_sheet ''S'' [[JStr ''A'', JStr ''B'']]) = []
   \<and> rows (build_sheet ''S'' [[JStr ''A'', JStr ''A''], [JStr ''1'', JStr ''2'']]) = [[(''A'', JStr ''2'')]]
   \<and> rows (build_sheet ''S'' [[JStr ''Name'', JStr ''2024''], [JStr ''Asha'', JStr ''5'']])
       = [[(''2024'', JStr ''5''), (''Name'', JStr ''Asha'')]]"
  by code_simp







section \<open>Preview and export\<close>






end
